theory Spec2Isabelle
  imports Main "HOL-Library.Word"
begin

unbundle bit_operations_syntax

section \<open>Data model\<close>

type_synonym u8 = "8 word"
type_synonym u32 = "32 word"
type_synonym u64 = "64 word"

text \<open>
  Modelled from the spec: the declaration of \<open>SHA256_CTX\<close> lives in \<open>sha256.h\<close>, which is
  not among the sources. The spec's Context is a state of 8 words, a 64-bit bit count and
  a buffer of 64 pending bytes; the code uses exactly the fields \<open>state\<close>, \<open>count\<close>, \<open>buf\<close>.
\<close>

record SHA256_CTX =
  state :: "u32 list"
  count :: u64
  buf :: "u8 list"

text \<open>
  The caller-supplied scratch space \<open>tmp32[72]\<close> that every function threads through, with a
  ghost field: the blocks handed to \<open>SHA256_Transform\<close> so far, in call order.
\<close>

record work =
  tmp32 :: "u32 list"
  trace :: "u8 list list"

text \<open>The one way the model can fail: a read past the end of the object a pointer points into.\<close>

datatype fault = OutOfBounds

text \<open>
  \<open>memcpy(&dst[off], src, n)\<close> and \<open>memset(&dst[off], v, n)\<close> on arrays held as lists;
  \<open>n\<close> counts elements.
\<close>

definition memcpy :: "'a list \<Rightarrow> nat \<Rightarrow> 'a list \<Rightarrow> nat \<Rightarrow> 'a list" where
  "memcpy dst off src n = take off dst @ take n src @ drop (off + n) dst"

definition memset :: "'a list \<Rightarrow> nat \<Rightarrow> 'a \<Rightarrow> nat \<Rightarrow> 'a list" where
  "memset dst off v n = take off dst @ replicate n v @ drop (off + n) dst"

section \<open>Byte order codec\<close>

text \<open>
  Modelled from the spec: \<open>be32dec\<close>, \<open>be32enc\<close> and \<open>be64enc\<close> come from \<open>sysendian.h\<close>,
  which is not among the sources. The spec fixes their contract: big-endian decoding of 4
  bytes into a 32-bit integer, big-endian encoding of a 32-bit integer into 4 bytes and of
  a 64-bit integer into 8 bytes. The encoders return the bytes they store.
\<close>

definition be32dec :: "u8 list \<Rightarrow> u32" where
  "be32dec p = ucast (p ! 3) + push_bit 8 (ucast (p ! 2))
                + push_bit 16 (ucast (p ! 1)) + push_bit 24 (ucast (p ! 0))"

definition be32enc :: "u32 \<Rightarrow> u8 list" where
  "be32enc x = [ucast (drop_bit 24 x AND 0xFF), ucast (drop_bit 16 x AND 0xFF),
                ucast (drop_bit 8 x AND 0xFF), ucast (x AND 0xFF)]"

definition be64enc :: "u64 \<Rightarrow> u8 list" where
  "be64enc x = [ucast (drop_bit 56 x AND 0xFF), ucast (drop_bit 48 x AND 0xFF),
                ucast (drop_bit 40 x AND 0xFF), ucast (drop_bit 32 x AND 0xFF),
                ucast (drop_bit 24 x AND 0xFF), ucast (drop_bit 16 x AND 0xFF),
                ucast (drop_bit 8 x AND 0xFF), ucast (x AND 0xFF)]"

text \<open>
  The two vector functions iterate as \<open>do { ... } while (--len)\<close>: the body runs before the test, and the
  pointers advance by \<open>drop\<close>. The result is the destination array from \<open>dst\<close> onwards.
  The program calls them with \<open>len = 4\<close> and \<open>len = 8\<close> only.
\<close>

function be32enc_vect :: "u8 list \<Rightarrow> u32 list \<Rightarrow> nat \<Rightarrow> u8 list" where
  "be32enc_vect dst src len =
     (let dst = memcpy dst 0 (be32enc (src ! 0)) 4;
          dst = memcpy dst 4 (be32enc (src ! 1)) 4
      in take 8 dst @
         (if len - 1 \<noteq> 0 then be32enc_vect (drop 8 dst) (drop 2 src) (len - 1)
          else drop 8 dst))"
  by pat_completeness auto
termination
  by (relation "measure (\<lambda>(dst, src, len). len)") auto

function be32dec_vect :: "u32 list \<Rightarrow> u8 list \<Rightarrow> nat \<Rightarrow> u32 list" where
  "be32dec_vect dst src len =
     (let dst = dst[0 := be32dec (take 4 src)];
          dst = dst[1 := be32dec (take 4 (drop 4 src))]
      in take 2 dst @
         (if len - 1 \<noteq> 0 then be32dec_vect (drop 2 dst) (drop 8 src) (len - 1)
          else drop 2 dst))"
  by pat_completeness auto
termination
  by (relation "measure (\<lambda>(dst, src, len). len)") auto

section \<open>Compression function\<close>

definition Krnd :: "u32 list" where
  "Krnd = [
    0x428A2F98, 0x71374491, 0xB5C0FBCF, 0xE9B5DBA5,
    0x3956C25B, 0x59F111F1, 0x923F82A4, 0xAB1C5ED5,
    0xD807AA98, 0x12835B01, 0x243185BE, 0x550C7DC3,
    0x72BE5D74, 0x80DEB1FE, 0x9BDC06A7, 0xC19BF174,
    0xE49B69C1, 0xEFBE4786, 0x0FC19DC6, 0x240CA1CC,
    0x2DE92C6F, 0x4A7484AA, 0x5CB0A9DC, 0x76F988DA,
    0x983E5152, 0xA831C66D, 0xB00327C8, 0xBF597FC7,
    0xC6E00BF3, 0xD5A79147, 0x06CA6351, 0x14292967,
    0x27B70A85, 0x2E1B2138, 0x4D2C6DFC, 0x53380D13,
    0x650A7354, 0x766A0ABB, 0x81C2C92E, 0x92722C85,
    0xA2BFE8A1, 0xA81A664B, 0xC24B8B70, 0xC76C51A3,
    0xD192E819, 0xD6990624, 0xF40E3585, 0x106AA070,
    0x19A4C116, 0x1E376C08, 0x2748774C, 0x34B0BCB5,
    0x391C0CB3, 0x4ED8AA4A, 0x5B9CCA4F, 0x682E6FF3,
    0x748F82EE, 0x78A5636F, 0x84C87814, 0x8CC70208,
    0x90BEFFFA, 0xA4506CEB, 0xBEF9A3F7, 0xC67178F2]"

definition Ch :: "u32 \<Rightarrow> u32 \<Rightarrow> u32 \<Rightarrow> u32" where
  "Ch x y z = (x AND (y XOR z)) XOR z"

definition Maj :: "u32 \<Rightarrow> u32 \<Rightarrow> u32 \<Rightarrow> u32" where
  "Maj x y z = (x AND (y OR z)) OR (y AND z)"

definition SHR :: "u32 \<Rightarrow> nat \<Rightarrow> u32" where
  "SHR x n = drop_bit n x"

definition ROTR :: "u32 \<Rightarrow> nat \<Rightarrow> u32" where
  "ROTR x n = drop_bit n x OR push_bit (32 - n) x"

definition S0 :: "u32 \<Rightarrow> u32" where
  "S0 x = ROTR x 2 XOR ROTR x 13 XOR ROTR x 22"

definition S1 :: "u32 \<Rightarrow> u32" where
  "S1 x = ROTR x 6 XOR ROTR x 11 XOR ROTR x 25"

definition s0 :: "u32 \<Rightarrow> u32" where
  "s0 x = ROTR x 7 XOR ROTR x 18 XOR SHR x 3"

definition s1 :: "u32 \<Rightarrow> u32" where
  "s1 x = ROTR x 17 XOR ROTR x 19 XOR SHR x 10"

text \<open>
  The macro \<open>RND\<close> takes eight lvalues; here they are the array \<open>S\<close> and eight indices into
  it, and the three assignments update \<open>S\<close> in place, in the macro's order.
\<close>

definition RND ::
  "u32 list \<Rightarrow> nat \<Rightarrow> nat \<Rightarrow> nat \<Rightarrow> nat \<Rightarrow> nat \<Rightarrow> nat \<Rightarrow> nat \<Rightarrow> nat \<Rightarrow> u32 \<Rightarrow> u32 list" where
  "RND S a b c d e f g h k =
     (let S = S[h := S ! h + (S1 (S ! e) + Ch (S ! e) (S ! f) (S ! g) + k)];
          S = S[d := S ! d + S ! h];
          S = S[h := S ! h + (S0 (S ! a) + Maj (S ! a) (S ! b) (S ! c))]
      in S)"

definition RNDr :: "u32 list \<Rightarrow> u32 list \<Rightarrow> nat \<Rightarrow> nat \<Rightarrow> u32 list" where
  "RNDr S W i ii =
     RND S ((64 - i) mod 8) ((65 - i) mod 8) ((66 - i) mod 8) ((67 - i) mod 8)
           ((68 - i) mod 8) ((69 - i) mod 8) ((70 - i) mod 8) ((71 - i) mod 8)
           (W ! (i + ii) + Krnd ! (i + ii))"

definition MSCH :: "u32 list \<Rightarrow> nat \<Rightarrow> nat \<Rightarrow> u32 list" where
  "MSCH W ii i =
     W[i + ii + 16 := s1 (W ! (i + ii + 14)) + W ! (i + ii + 9)
                       + s0 (W ! (i + ii + 1)) + W ! (i + ii)]"

text \<open>
  Step 3 of \<open>SHA256_Transform\<close>: the loop \<open>for (i = 0; i < 64; i += 16)\<close>, whose body is
  sixteen \<open>RNDr(S, W, j, i)\<close>, the \<open>break\<close> at \<open>i == 48\<close>, and sixteen \<open>MSCH(W, j, i)\<close>,
  for \<open>j = 0, ..., 15\<close> in this order.
\<close>

function SHA256_Mix :: "nat \<Rightarrow> u32 list \<Rightarrow> u32 list \<Rightarrow> u32 list \<times> u32 list" where
  "SHA256_Mix i S W =
     (if i < 64 then
        (let S = foldl (\<lambda>S j. RNDr S W j i) S [0..<16]
         in if i = 48 then (S, W)
            else SHA256_Mix (i + 16) S (foldl (\<lambda>W j. MSCH W j i) W [0..<16]))
      else (S, W))"
  by pat_completeness auto
termination
  by (relation "measure (\<lambda>(i, S, W). 64 - i)") auto

text \<open>The result is the three arrays the function writes: \<open>state\<close>, \<open>W\<close> and \<open>S\<close>.\<close>

definition SHA256_Transform ::
  "u32 list \<Rightarrow> u8 list \<Rightarrow> u32 list \<Rightarrow> u32 list \<Rightarrow> u32 list \<times> u32 list \<times> u32 list" where
  "SHA256_Transform st block W S =
     (let W = be32dec_vect W block 8;
          S = memcpy S 0 st 8;
          (S, W) = SHA256_Mix 0 S W;
          st = foldl (\<lambda>st k. st[k := st ! k + S ! k]) st [0..<8]
      in (st, W, S))"

text \<open>
  Every call in the file has the form
  \<open>SHA256_Transform(ctx->state, block, &tmp32[0], &tmp32[64])\<close>; the ghost trace records
  the block.
\<close>

definition Transform_call :: "SHA256_CTX \<Rightarrow> u8 list \<Rightarrow> work \<Rightarrow> SHA256_CTX \<times> work" where
  "Transform_call ctx block w =
     (case SHA256_Transform (state ctx) block (take 64 (tmp32 w)) (drop 64 (tmp32 w)) of
        (st, W, S) \<Rightarrow>
          (ctx\<lparr>state := st\<rparr>, w\<lparr>tmp32 := W @ S, trace := trace w @ [block]\<rparr>))"

section \<open>Padding, streaming context and the one-shot functions\<close>

definition PAD :: "u8 list" where
  "PAD = 0x80 # replicate 63 0"

definition initial_state :: "u32 list" where
  "initial_state = [0x6A09E667, 0xBB67AE85, 0x3C6EF372, 0xA54FF53A,
                    0x510E527F, 0x9B05688C, 0x1F83D9AB, 0x5BE0CD19]"

text \<open>\<open>r = (ctx->count >> 3) & 0x3F\<close>, the number of buffered bytes.\<close>

definition buffered :: "SHA256_CTX \<Rightarrow> nat" where
  "buffered ctx = unat (drop_bit 3 (count ctx) AND 0x3F)"

definition SHA256_Pad :: "SHA256_CTX \<Rightarrow> work \<Rightarrow> SHA256_CTX \<times> work" where
  "SHA256_Pad ctx w =
     (let r = buffered ctx;
          (ctx, w) =
            (if r < 56 then (ctx\<lparr>buf := memcpy (buf ctx) r PAD (56 - r)\<rparr>, w)
             else
               (let ctx = ctx\<lparr>buf := memcpy (buf ctx) r PAD (64 - r)\<rparr>;
                    (ctx, w) = Transform_call ctx (buf ctx) w
                in (ctx\<lparr>buf := memset (buf ctx) 0 0 56\<rparr>, w)));
          ctx = ctx\<lparr>buf := memcpy (buf ctx) 56 (be64enc (count ctx)) 8\<rparr>
      in Transform_call ctx (buf ctx) w)"

text \<open>\<open>SHA256_Init\<close> writes \<open>count\<close> and \<open>state\<close> and leaves \<open>buf\<close> as it finds it.\<close>

definition SHA256_Init :: "SHA256_CTX \<Rightarrow> SHA256_CTX" where
  "SHA256_Init ctx = ctx\<lparr>count := 0, state := memcpy (state ctx) 0 initial_state 8\<rparr>"

text \<open>The loop \<open>while (len >= 64)\<close> of the update; \<open>src\<close> is the input still to be read.\<close>

function SHA256_Update_blocks ::
  "SHA256_CTX \<Rightarrow> u8 list \<Rightarrow> work \<Rightarrow> SHA256_CTX \<times> u8 list \<times> work" where
  "SHA256_Update_blocks ctx src w =
     (if length src \<ge> 64 then
        (let (ctx, w) = Transform_call ctx (take 64 src) w
         in SHA256_Update_blocks ctx (drop 64 src) w)
      else (ctx, src, w))"
  by pat_completeness auto
termination
  by (relation "measure (\<lambda>(ctx, src, w). length src)") auto

text \<open>
  \<open>_SHA256_Update(ctx, in, len, tmp32)\<close>: the input is the list of the \<open>len\<close> bytes at \<open>in\<close>.
  An identifier cannot start with an underscore here, so the two static functions are
  named as their own doc comments name them.
\<close>

definition SHA256_Update :: "SHA256_CTX \<Rightarrow> u8 list \<Rightarrow> work \<Rightarrow> SHA256_CTX \<times> work" where
  "SHA256_Update ctx inp w =
     (if length inp = 0 then (ctx, w)
      else
        (let r = buffered ctx;
             ctx = ctx\<lparr>count := count ctx + push_bit 3 (of_nat (length inp))\<rparr>
         in if length inp < 64 - r then (ctx\<lparr>buf := memcpy (buf ctx) r inp (length inp)\<rparr>, w)
            else
              (let ctx = ctx\<lparr>buf := memcpy (buf ctx) r inp (64 - r)\<rparr>;
                   (ctx, w) = Transform_call ctx (buf ctx) w;
                   (ctx, src, w) = SHA256_Update_blocks ctx (drop (64 - r) inp) w
               in (ctx\<lparr>buf := memcpy (buf ctx) 0 src (length src)\<rparr>, w))))"

definition SHA256_Final ::
  "u8 list \<Rightarrow> SHA256_CTX \<Rightarrow> work \<Rightarrow> u8 list \<times> SHA256_CTX \<times> work" where
  "SHA256_Final digest ctx w =
     (let (ctx, w) = SHA256_Pad ctx w
      in (be32enc_vect digest (state ctx) 4, ctx, w))"

text \<open>
  The locals \<open>ctx\<close> and \<open>tmp32\<close> of the two one-shot functions are not initialised: their
  contents on entry are the parameters \<open>ctx\<close> and \<open>w\<close>. \<open>digest\<close> is the caller's memory
  from the pointer \<open>digest\<close> to the end of the object it points into; the result is that
  memory on return.
\<close>

definition SHA256_Buf :: "SHA256_CTX \<Rightarrow> work \<Rightarrow> u8 list \<Rightarrow> u8 list \<Rightarrow> u8 list" where
  "SHA256_Buf ctx w inp digest =
     (let ctx = SHA256_Init ctx;
          (ctx, w) = SHA256_Update ctx inp w;
          (digest, ctx, w) = SHA256_Final digest ctx w
      in digest)"

text \<open>
  The second pass reads \<open>len\<close> bytes at \<open>digest\<close>; reading past the end of the caller's
  object is the fault.
\<close>

definition SHA256d_Buf :: "SHA256_CTX \<Rightarrow> work \<Rightarrow> u8 list \<Rightarrow> u8 list \<Rightarrow> fault + u8 list" where
  "SHA256d_Buf ctx w inp digest =
     (let ctx = SHA256_Init ctx;
          (ctx, w) = SHA256_Update ctx inp w;
          (digest, ctx, w) = SHA256_Final digest ctx w;
          ctx = SHA256_Init ctx
      in if length inp > length digest then Inl OutOfBounds
         else
           (let (ctx, w) = SHA256_Update ctx (take (length inp) digest) w;
                (digest, ctx, w) = SHA256_Final digest ctx w
            in Inr digest))"

section \<open>The specification's functions\<close>

text \<open>
  The definitions of this section follow the words of the specification (sections 4.1 to
  4.5), not the code: the choice and majority functions in their textbook form, a rotation
  that is the library's \<open>word_rotr\<close>, a schedule built word by word, and a round
  function on the eight working variables \<open>a, ..., h\<close>.
\<close>

definition rotr :: "u32 \<Rightarrow> nat \<Rightarrow> u32" where
  "rotr x n = word_rotr n x"

definition Ch_spec :: "u32 \<Rightarrow> u32 \<Rightarrow> u32 \<Rightarrow> u32" where
  "Ch_spec x y z = (x AND y) XOR (NOT x AND z)"

definition Maj_spec :: "u32 \<Rightarrow> u32 \<Rightarrow> u32 \<Rightarrow> u32" where
  "Maj_spec x y z = (x AND y) OR (x AND z) OR (y AND z)"

definition Sigma0 :: "u32 \<Rightarrow> u32" where
  "Sigma0 x = rotr x 2 XOR rotr x 13 XOR rotr x 22"

definition Sigma1 :: "u32 \<Rightarrow> u32" where
  "Sigma1 x = rotr x 6 XOR rotr x 11 XOR rotr x 25"

definition sigma0 :: "u32 \<Rightarrow> u32" where
  "sigma0 x = rotr x 7 XOR rotr x 18 XOR drop_bit 3 x"

definition sigma1 :: "u32 \<Rightarrow> u32" where
  "sigma1 x = rotr x 17 XOR rotr x 19 XOR drop_bit 10 x"

text \<open>Words 0 to 15: the block as 16 big-endian 32-bit integers.\<close>

definition decode_block :: "u8 list \<Rightarrow> u32 list" where
  "decode_block blk = map (\<lambda>i. be32dec (take 4 (drop (4 * i) blk))) [0..<16]"

text \<open>
  Word \<open>i\<close>, for \<open>i\<close> the number of words so far:
  \<open>w[i] = \<sigma>1(w[i-2]) + w[i-7] + \<sigma>0(w[i-15]) + w[i-16]\<close>.
\<close>

definition schedule_word :: "u32 list \<Rightarrow> u32" where
  "schedule_word ws =
     (let i = length ws
      in sigma1 (ws ! (i - 2)) + ws ! (i - 7) + sigma0 (ws ! (i - 15)) + ws ! (i - 16))"

fun schedule_ext :: "nat \<Rightarrow> u32 list \<Rightarrow> u32 list" where
  "schedule_ext 0 ws = ws"
| "schedule_ext (Suc n) ws = schedule_ext n (ws @ [schedule_word ws])"

definition schedule_spec :: "u8 list \<Rightarrow> u32 list" where
  "schedule_spec blk = schedule_ext 48 (decode_block blk)"

type_synonym vars = "u32 \<times> u32 \<times> u32 \<times> u32 \<times> u32 \<times> u32 \<times> u32 \<times> u32"

text \<open>
  One round: \<open>T1 = h + \<Sigma>1(e) + Ch(e,f,g) + K[i] + w[i]\<close>, then
  \<open>h\<leftarrow>g, g\<leftarrow>f, f\<leftarrow>e, e\<leftarrow>d+T1, d\<leftarrow>c, c\<leftarrow>b, b\<leftarrow>a, a\<leftarrow>T1+\<Sigma>0(a)+Maj(a,b,c)\<close>.
\<close>

definition round_spec :: "u32 \<Rightarrow> u32 \<Rightarrow> vars \<Rightarrow> vars" where
  "round_spec k w = (\<lambda>(a, b, c, d, e, f, g, h).
     let T1 = h + Sigma1 e + Ch_spec e f g + k + w
     in (T1 + Sigma0 a + Maj_spec a b c, a, b, c, d + T1, e, f, g))"

text \<open>Rounds 0 to 63, each with its constant and its schedule word.\<close>

definition rounds_spec :: "u32 list \<Rightarrow> vars \<Rightarrow> vars" where
  "rounds_spec ws v = foldl (\<lambda>v (k, w). round_spec k w v) v (zip Krnd ws)"

definition vars_of :: "u32 list \<Rightarrow> vars" where
  "vars_of S = (S ! 0, S ! 1, S ! 2, S ! 3, S ! 4, S ! 5, S ! 6, S ! 7)"

definition list_of_vars :: "vars \<Rightarrow> u32 list" where
  "list_of_vars = (\<lambda>(a, b, c, d, e, f, g, h). [a, b, c, d, e, f, g, h])"

text \<open>The compression core: 64 rounds on a copy of the state, then the feed-forward addition.\<close>

definition compress_spec :: "u32 list \<Rightarrow> u8 list \<Rightarrow> u32 list" where
  "compress_spec st blk =
     (case rounds_spec (schedule_spec blk) (vars_of st) of
        (a, b, c, d, e, f, g, h) \<Rightarrow>
          [st ! 0 + a, st ! 1 + b, st ! 2 + c, st ! 3 + d,
           st ! 4 + e, st ! 5 + f, st ! 6 + g, st ! 7 + h])"

text \<open>
  The working variables \<open>a, ..., h\<close> as the code's rotating array holds them before round
  \<open>j\<close> of a group of sixteen.
\<close>

definition view :: "nat \<Rightarrow> u32 list \<Rightarrow> vars" where
  "view j S = (S ! ((64 - j) mod 8), S ! ((65 - j) mod 8), S ! ((66 - j) mod 8),
               S ! ((67 - j) mod 8), S ! ((68 - j) mod 8), S ! ((69 - j) mod 8),
               S ! ((70 - j) mod 8), S ! ((71 - j) mod 8))"

text \<open>The complete 64-byte blocks of a message, in order; a shorter rest is left out.\<close>

function blocks_of :: "u8 list \<Rightarrow> u8 list list" where
  "blocks_of bs = (if length bs \<ge> 64 then take 64 bs # blocks_of (drop 64 bs) else [])"
  by pat_completeness auto
termination
  by (relation "measure length") auto

text \<open>The bytes of a message past its last complete block.\<close>

definition rest_of :: "u8 list \<Rightarrow> u8 list" where
  "rest_of bs = drop (length bs - length bs mod 64) bs"

text \<open>
  The padder of section 4.3 on the buffered bytes \<open>t\<close> and the bit count: one block when
  fewer than 56 bytes are buffered, two otherwise.
\<close>

definition pad_blocks :: "u64 \<Rightarrow> u8 list \<Rightarrow> u8 list list" where
  "pad_blocks cnt t =
     (if length t < 56 then [t @ 0x80 # replicate (55 - length t) 0 @ be64enc cnt]
      else [t @ 0x80 # replicate (63 - length t) 0, replicate 56 0 @ be64enc cnt])"

text \<open>The digest of a message: the big-endian encoding of the state after all blocks.\<close>

definition sha256_spec :: "u8 list \<Rightarrow> u8 list" where
  "sha256_spec M =
     concat (map be32enc
       (foldl compress_spec initial_state
          (blocks_of M @ pad_blocks (of_nat (8 * length M)) (rest_of M))))"

section \<open>Well-formed arguments and streaming\<close>

text \<open>The fixed array sizes of the C declarations.\<close>

definition ctx_ok :: "SHA256_CTX \<Rightarrow> bool" where
  "ctx_ok ctx \<longleftrightarrow> length (state ctx) = 8 \<and> length (buf ctx) = 64"

definition work_ok :: "work \<Rightarrow> bool" where
  "work_ok w \<longleftrightarrow> length (tmp32 w) = 72"

text \<open>\<open>foreach chunk: _SHA256_Update(ctx, chunk)\<close>.\<close>

fun SHA256_Updates :: "SHA256_CTX \<Rightarrow> u8 list list \<Rightarrow> work \<Rightarrow> SHA256_CTX \<times> work" where
  "SHA256_Updates ctx [] w = (ctx, w)"
| "SHA256_Updates ctx (chunk # chunks) w =
     (let (ctx, w) = SHA256_Update ctx chunk w in SHA256_Updates ctx chunks w)"

text \<open>\<open>SHA256_Init\<close>, one update per chunk, \<open>_SHA256_Final\<close>.\<close>

definition SHA256_stream :: "SHA256_CTX \<Rightarrow> work \<Rightarrow> u8 list list \<Rightarrow> u8 list \<Rightarrow> u8 list" where
  "SHA256_stream ctx w chunks digest =
     (let ctx = SHA256_Init ctx;
          (ctx, w) = SHA256_Updates ctx chunks w;
          (digest, ctx, w) = SHA256_Final digest ctx w
      in digest)"

text \<open>
  The context \<open>ctx\<close> has been fed exactly the message \<open>M\<close>: its state is the
  compression of the complete blocks of \<open>M\<close>, its count the bit length of \<open>M\<close>, and the
  front of its buffer the bytes of \<open>M\<close> past the last complete block.
\<close>

definition fed :: "SHA256_CTX \<Rightarrow> u8 list \<Rightarrow> bool" where
  "fed ctx M \<longleftrightarrow>
     ctx_ok ctx \<and>
     state ctx = foldl compress_spec initial_state (blocks_of M) \<and>
     count ctx = of_nat (8 * length M) \<and>
     take (length M mod 64) (buf ctx) = rest_of M"

section \<open>Evaluation on natural numbers\<close>

text \<open>
  Concrete digests are computed inside the logic. A 32-bit word is written \<open>W32 n\<close> and a
  byte \<open>B8 n\<close> for a natural number \<open>n\<close>, so that every operation of the compression
  function becomes arithmetic on numerals, reduced modulo \<open>2^32\<close> after each step.
\<close>

definition W32 :: "nat \<Rightarrow> u32" where
  "W32 n = of_nat n"

definition B8 :: "nat \<Rightarrow> u8" where
  "B8 n = of_nat n"

definition rotn :: "nat \<Rightarrow> nat \<Rightarrow> nat" where
  "rotn a n = (a mod 4294967296 div 2 ^ n) OR (a * 2 ^ (32 - n) mod 4294967296)"

definition shrn :: "nat \<Rightarrow> nat \<Rightarrow> nat" where
  "shrn a n = a mod 4294967296 div 2 ^ n"

text \<open>The second half of a round, once \<open>T1\<close> is a number.\<close>

definition round_fin ::
  "nat \<Rightarrow> nat \<Rightarrow> nat \<Rightarrow> nat \<Rightarrow> nat \<Rightarrow> nat \<Rightarrow> nat \<Rightarrow> nat \<Rightarrow> vars" where
  "round_fin t1 a b c d e f g =
     (W32 ((t1 + (rotn a 2 XOR rotn a 13 XOR rotn a 22)
               + ((a AND b) OR (a AND c) OR (b AND c))) mod 4294967296),
      W32 a, W32 b, W32 c, W32 ((d + t1) mod 4294967296), W32 e, W32 f, W32 g)"

text \<open>The schedule with its last sixteen words kept apart from the words before them.\<close>

definition sched_run :: "nat \<Rightarrow> u32 list \<Rightarrow> u32 list \<Rightarrow> u32 list" where
  "sched_run n pre win = schedule_ext n (pre @ win)"

text \<open>An all-zero context, scratch space and digest buffer, for concrete runs.\<close>

definition zero_ctx :: SHA256_CTX where
  "zero_ctx = \<lparr>state = replicate 8 0, count = 0, buf = replicate 64 0\<rparr>"

definition zero_work :: work where
  "zero_work = \<lparr>tmp32 = replicate 72 0, trace = []\<rparr>"

definition zero_digest :: "u8 list" where
  "zero_digest = replicate 32 0"

text \<open>
  The same three filled with ones, as memory that was never initialised may be, and a
  context in the middle of a run: the bytes \<open>abc\<close> fed and buffered, the rest of the buffer
  left over from before.
\<close>

definition ones_ctx :: SHA256_CTX where
  "ones_ctx = \<lparr>state = replicate 8 0xFFFFFFFF, count = 0xFFFFFFFFFFFFFFFF, buf = replicate 64 0xFF\<rparr>"

definition ones_work :: work where
  "ones_work = \<lparr>tmp32 = replicate 72 0xFFFFFFFF, trace = []\<rparr>"

definition ones_digest :: "u8 list" where
  "ones_digest = replicate 32 0xFF"

definition abc_ctx :: SHA256_CTX where
  "abc_ctx = \<lparr>state = initial_state, count = 24, buf = [0x61, 0x62, 0x63] @ replicate 61 0xFF\<rparr>"

section \<open>The compression function computes the specification's\<close>

lemma Ch_eq: "Ch x y z = Ch_spec x y z"
  unfolding Ch_def Ch_spec_def
  by (rule bit_eqI) (auto simp add: bit_simps)

lemma Maj_eq: "Maj x y z = Maj_spec x y z"
  unfolding Maj_def Maj_spec_def
  by (rule bit_eqI) (auto simp add: bit_simps)

lemma ROTR_eq: 
  assumes "0 < n" "n < 32" shows "ROTR x n = rotr x n"
proof (rule bit_eqI)
  fix k assume "possible_bit TYPE(u32) k"
  then have k: "k < 32" by (simp add: possible_bit_def)
  show "bit (ROTR x n) k = bit (rotr x n) k"
  proof (cases "k + n < 32")
    case True
    with k assms show ?thesis
      by (auto simp add: ROTR_def rotr_def bit_simps bit_word_rotr_iff add.commute)
  next
    case False
    then have m: "(k + n) mod 32 = k + n - 32" using k assms by (simp add: mod_if)
    have nb: "\<not> bit x (n + k)" using False by (auto dest: bit_imp_le_length)
    from False k assms m nb show ?thesis
      by (auto simp add: ROTR_def rotr_def bit_simps bit_word_rotr_iff)
  qed
qed

declare be32dec_vect.simps [simp del] be32enc_vect.simps [simp del]

lemma map_upt_Suc2: "map f [0..<Suc (Suc n)] = f 0 # f 1 # map (\<lambda>i. f (i + 2)) [0..<n]"
  by (simp add: map_upt_Suc del: upt_Suc)

lemma be32dec_vect_eq:
  "2 * Suc n \<le> length dst \<Longrightarrow>
   be32dec_vect dst src (Suc n) =
     map (\<lambda>i. be32dec (take 4 (drop (4 * i) src))) [0..<2 * Suc n] @ drop (2 * Suc n) dst"
proof (induction n arbitrary: dst src)
  case 0
  then show ?case
    apply (subst be32dec_vect.simps)
    apply (cases dst; simp)
    subgoal for a l by (cases l; simp add: Let_def numeral_2_eq_2)
    done
next
  case (Suc n)
  from Suc.prems obtain a b rest where dst: "dst = a # b # rest"
    by (cases dst; simp; cases "tl dst"; auto)
  have len: "2 * Suc n \<le> length rest" using Suc.prems dst by simp
  have step: "be32dec_vect dst src (Suc (Suc n)) =
      be32dec (take 4 src) # be32dec (take 4 (drop 4 src)) # be32dec_vect rest (drop 8 src) (Suc n)"
    by (subst be32dec_vect.simps) (simp add: dst Let_def)
  have "2 * Suc (Suc n) = Suc (Suc (2 * Suc n))" by simp
  then show ?case
    unfolding step Suc.IH [OF len] 
    by (simp only: map_upt_Suc2 dst) (simp add: algebra_simps)
qed

lemma s0_eq: "s0 x = sigma0 x" by (simp add: s0_def sigma0_def ROTR_eq SHR_def)

lemma s1_eq: "s1 x = sigma1 x" by (simp add: s1_def sigma1_def ROTR_eq SHR_def)

lemma S0_eq: "S0 x = Sigma0 x" by (simp add: S0_def Sigma0_def ROTR_eq)

lemma S1_eq: "S1 x = Sigma1 x" by (simp add: S1_def Sigma1_def ROTR_eq)

lemma length_schedule_ext [simp]: "length (schedule_ext n ws) = length ws + n"
  by (induction n arbitrary: ws) auto

lemma take_schedule_ext: "take (length ws) (schedule_ext n ws) = ws"
proof (induction n arbitrary: ws)
  case (Suc n)
  have "take (length ws) (schedule_ext (Suc n) ws) =
        take (length ws) (take (length (ws @ [schedule_word ws])) (schedule_ext n (ws @ [schedule_word ws])))"
    by (simp add: min_def)
  then show ?case by (simp only: Suc.IH) simp
qed simp

lemma schedule_ext_add: "schedule_ext (m + n) ws = schedule_ext n (schedule_ext m ws)"
  by (induction m arbitrary: ws) auto

lemma take_schedule_ext_le:
  "m \<le> n \<Longrightarrow> take (length ws + m) (schedule_ext n ws) = schedule_ext m ws"
proof -
  assume "m \<le> n"
  then obtain d where n: "n = m + d" by (auto simp: le_iff_add)
  show ?thesis
    unfolding n schedule_ext_add
    using take_schedule_ext [of "schedule_ext m ws" d] by simp
qed

lemma schedule_ext_Suc_snoc:
  "schedule_ext (Suc m) ws = schedule_ext m ws @ [schedule_word (schedule_ext m ws)]"
  using schedule_ext_add [of m 1 ws] by simp

lemma length_decode_block [simp]: "length (decode_block blk) = 16"
  by (simp add: decode_block_def)

lemma length_schedule_spec [simp]: "length (schedule_spec blk) = 64"
  by (simp add: schedule_spec_def)

lemma take_Suc_update: "n < length W \<Longrightarrow> take (Suc n) (W[n := x]) = take n W @ [x]"
  by (simp add: take_Suc_conv_app_nth)

lemma MSCH_step:
  assumes "length W = 64" "take (16 + k) W = schedule_ext k w16" "length w16 = 16"
    "k = i + j" "k < 48"
  shows "length (MSCH W j i) = 64 \<and> take (16 + Suc k) (MSCH W j i) = schedule_ext (Suc k) w16"
proof -
  have nth: "\<And>t. t < 16 + k \<Longrightarrow> W ! t = schedule_ext k w16 ! t"
    using assms(2) by (metis nth_take)
  have x: "s1 (W ! (i + j + 14)) + W ! (i + j + 9) + s0 (W ! (i + j + 1)) + W ! (i + j)
         = schedule_word (schedule_ext k w16)"
    using assms(3,4) by (simp add: schedule_word_def Let_def nth s0_eq s1_eq add.commute)
  have "take (Suc (k + 16)) (W[k + 16 := schedule_word (schedule_ext k w16)])
          = take (k + 16) W @ [schedule_word (schedule_ext k w16)]"
    using assms(1,5) by (intro take_Suc_update) simp
  then show ?thesis
    using assms(1,2,4) unfolding MSCH_def x schedule_ext_Suc_snoc
    by (simp add: add.commute)
qed

lemma MSCH_steps:
  assumes "length W = 64" "take (16 + i) W = schedule_ext i w16" "length w16 = 16" "i + m \<le> 48"
  shows "length (foldl (\<lambda>W j. MSCH W j i) W [0..<m]) = 64 \<and>
         take (16 + (i + m)) (foldl (\<lambda>W j. MSCH W j i) W [0..<m]) = schedule_ext (i + m) w16"
  using assms(4)
proof (induction m)
  case 0
  then show ?case using assms by simp
next
  case (Suc m)
  then have IH: "length (foldl (\<lambda>W j. MSCH W j i) W [0..<m]) = 64"
     "take (16 + (i + m)) (foldl (\<lambda>W j. MSCH W j i) W [0..<m]) = schedule_ext (i + m) w16"
    by simp_all
  have "i + m < 48" using Suc.prems by simp
  from MSCH_step [OF IH assms(3) refl this]
  show ?case by simp
qed

lemma length8E:
  assumes "length (S :: 'a list) = 8"
  obtains x0 x1 x2 x3 x4 x5 x6 x7 where "S = [x0, x1, x2, x3, x4, x5, x6, x7]"
  using assms by (auto simp: eval_nat_numeral length_Suc_conv)

lemma list_update_Cons_numeral:
  "(x # xs)[numeral k := v] = x # xs[pred_numeral k := v]"
  by (simp add: numeral_eq_Suc)

lemma RNDr_step_list:
  assumes "j = 0 \<or> j = 1 \<or> j = 2 \<or> j = 3 \<or> j = 4 \<or> j = 5 \<or> j = 6 \<or> j = 7 \<or>
      j = 8 \<or> j = 9 \<or> j = 10 \<or> j = 11 \<or> j = 12 \<or> j = 13 \<or> j = 14 \<or> j = 15"
  shows "length (RNDr [x0, x1, x2, x3, x4, x5, x6, x7] W j i) = 8 \<and>
         view (Suc j) (RNDr [x0, x1, x2, x3, x4, x5, x6, x7] W j i) =
           round_spec (Krnd ! (j + i)) (W ! (j + i)) (view j [x0, x1, x2, x3, x4, x5, x6, x7])"
  using assms
  by (elim disjE; simp add: RNDr_def RND_def view_def round_spec_def Let_def
        S0_eq S1_eq Ch_eq Maj_eq list_update_Cons_numeral ac_simps)

lemma RNDr_step:
  assumes "length S = 8" "j < 16"
  shows "length (RNDr S W j i) = 8 \<and>
         view (Suc j) (RNDr S W j i) = round_spec (Krnd ! (j + i)) (W ! (j + i)) (view j S)"
proof -
  from assms(1) obtain x0 x1 x2 x3 x4 x5 x6 x7 where S: "S = [x0, x1, x2, x3, x4, x5, x6, x7]"
    by (rule length8E)
  from assms(2) have "j = 0 \<or> j = 1 \<or> j = 2 \<or> j = 3 \<or> j = 4 \<or> j = 5 \<or> j = 6 \<or> j = 7 \<or>
      j = 8 \<or> j = 9 \<or> j = 10 \<or> j = 11 \<or> j = 12 \<or> j = 13 \<or> j = 14 \<or> j = 15" by arith
  then show ?thesis unfolding S by (rule RNDr_step_list)
qed

lemma view_0: "view 0 S = vars_of S"
  by (simp add: view_def vars_of_def)

lemma view_16: "view 16 S = vars_of S"
  by (simp add: view_def vars_of_def)

lemma list_of_vars_of: "length S = 8 \<Longrightarrow> list_of_vars (vars_of S) = S"
  by (erule length8E) (simp add: list_of_vars_def vars_of_def)

lemma RNDr_steps:
  assumes "length S = 8" "m \<le> 16"
  shows "length (foldl (\<lambda>S j. RNDr S W j i) S [0..<m]) = 8 \<and>
         view m (foldl (\<lambda>S j. RNDr S W j i) S [0..<m]) =
           foldl (\<lambda>v j. round_spec (Krnd ! (j + i)) (W ! (j + i)) v) (view 0 S) [0..<m]"
  using assms(2)
proof (induction m)
  case 0
  then show ?case using assms(1) by simp
next
  case (Suc m)
  then have IH: "length (foldl (\<lambda>S j. RNDr S W j i) S [0..<m]) = 8"
    "view m (foldl (\<lambda>S j. RNDr S W j i) S [0..<m]) =
           foldl (\<lambda>v j. round_spec (Krnd ! (j + i)) (W ! (j + i)) v) (view 0 S) [0..<m]"
    by simp_all
  have "m < 16" using Suc.prems by simp
  from RNDr_step [OF IH(1) this, of W i] IH(2)
  show ?case by simp
qed

lemma group_rounds:
  assumes "length S = 8" "take (16 + i) W = schedule_ext i w16" "length w16 = 16" "i \<le> 48"
  defines "S' \<equiv> foldl (\<lambda>S j. RNDr S W j i) S [0..<16]"
  shows "length S' = 8 \<and>
         vars_of S' = foldl (\<lambda>v j. round_spec (Krnd ! (j + i)) (schedule_ext 48 w16 ! (j + i)) v)
                        (vars_of S) [0..<16]"
proof -
  have W: "W ! (j + i) = schedule_ext 48 w16 ! (j + i)" if "j < 16" for j
  proof -
    have "W ! (j + i) = take (16 + i) W ! (j + i)" using that by simp
    also have "\<dots> = take (length w16 + i) (schedule_ext 48 w16) ! (j + i)"
      using assms(2,4) by (simp add: take_schedule_ext_le)
    also have "\<dots> = schedule_ext 48 w16 ! (j + i)" using that assms(3) by simp
    finally show ?thesis .
  qed
  have cong: "foldl (\<lambda>v j. round_spec (Krnd ! (j + i)) (W ! (j + i)) v) (view 0 S) [0..<16]
      = foldl (\<lambda>v j. round_spec (Krnd ! (j + i)) (schedule_ext 48 w16 ! (j + i)) v) (view 0 S) [0..<16]"
    by (rule foldl_cong) (simp_all add: W)
  from RNDr_steps [OF assms(1), of 16 W i]
  show ?thesis
    unfolding S'_def cong by (simp only: view_16 view_0)
qed

lemma length_Krnd [simp]: "length Krnd = 64"
  by (simp add: Krnd_def)

lemma zip_map_nth:
  "length xs = n \<Longrightarrow> length ys = n \<Longrightarrow> zip xs ys = map (\<lambda>t. (xs ! t, ys ! t)) [0..<n]"
  by (rule nth_equalityI) simp_all

lemma rounds_spec_upt:
  "length ws = 64 \<Longrightarrow>
   rounds_spec ws v = foldl (\<lambda>v t. round_spec (Krnd ! t) (ws ! t) v) v [0..<64]"
  unfolding rounds_spec_def
  by (subst zip_map_nth [where n = 64]) (simp_all add: foldl_map)

lemma foldl_64_groups:
  "foldl f v [0..<64] =
     foldl (\<lambda>v j. f v (j + 48)) (foldl (\<lambda>v j. f v (j + 32))
       (foldl (\<lambda>v j. f v (j + 16)) (foldl (\<lambda>v j. f v (j + 0)) v [0..<16]) [0..<16])
         [0..<16]) [0..<16]"
proof -
  have "[0..<64] = map (\<lambda>j. j + 0) [0..<16] @ map (\<lambda>j. j + 16) [0..<16]
                   @ map (\<lambda>j. j + 32) [0..<16] @ map (\<lambda>j. j + 48) [0..<16]"
    using upt_add_eq_append [of 0 16 48] by (simp add: map_add_upt)
  then show ?thesis by (simp only: foldl_append foldl_map)
qed

declare SHA256_Mix.simps [simp del]

lemma SHA256_Mix_unfold:
  "SHA256_Mix 0 S W =
     (let S1 = foldl (\<lambda>S j. RNDr S W j 0) S [0..<16];
          W1 = foldl (\<lambda>W j. MSCH W j 0) W [0..<16];
          S2 = foldl (\<lambda>S j. RNDr S W1 j 16) S1 [0..<16];
          W2 = foldl (\<lambda>W j. MSCH W j 16) W1 [0..<16];
          S3 = foldl (\<lambda>S j. RNDr S W2 j 32) S2 [0..<16];
          W3 = foldl (\<lambda>W j. MSCH W j 32) W2 [0..<16];
          S4 = foldl (\<lambda>S j. RNDr S W3 j 48) S3 [0..<16]
      in (S4, W3))"
  apply (subst SHA256_Mix.simps [of 0])
  apply (subst SHA256_Mix.simps [of "0 + 16"])
  apply (subst SHA256_Mix.simps [of "0 + 16 + 16"])
  apply (subst SHA256_Mix.simps [of "0 + 16 + 16 + 16"])
  apply (simp only: Let_def)
  apply simp
  done

lemma SHA256_Mix_spec:
  assumes "length S = 8" "length W = 64" "take 16 W = w16"
  shows "SHA256_Mix 0 S W =
           (list_of_vars (rounds_spec (schedule_ext 48 w16) (vars_of S)), schedule_ext 48 w16)"
proof -
  have l16: "length w16 = 16" using assms(2,3) by auto
  define W1 where "W1 = foldl (\<lambda>W j. MSCH W j 0) W [0..<16]"
  define W2 where "W2 = foldl (\<lambda>W j. MSCH W j 16) W1 [0..<16]"
  define W3 where "W3 = foldl (\<lambda>W j. MSCH W j 32) W2 [0..<16]"
  define S1 where "S1 = foldl (\<lambda>S j. RNDr S W j 0) S [0..<16]"
  define S2 where "S2 = foldl (\<lambda>S j. RNDr S W1 j 16) S1 [0..<16]"
  define S3 where "S3 = foldl (\<lambda>S j. RNDr S W2 j 32) S2 [0..<16]"
  define S4 where "S4 = foldl (\<lambda>S j. RNDr S W3 j 48) S3 [0..<16]"
  let ?ws = "schedule_ext 48 w16"
  let ?f = "\<lambda>v t. round_spec (Krnd ! t) (?ws ! t) v"
  have W0: "take (16 + 0) W = schedule_ext 0 w16" using assms(3) by simp
  from MSCH_steps [OF assms(2) W0 l16, of 16]
  have W1: "length W1 = 64" "take (16 + 16) W1 = schedule_ext 16 w16"
    by (simp_all add: W1_def)
  from MSCH_steps [OF W1 l16, of 16]
  have W2: "length W2 = 64" "take (16 + 32) W2 = schedule_ext 32 w16"
    by (simp_all add: W2_def)
  from MSCH_steps [OF W2 l16, of 16]
  have W3: "length W3 = 64" "take (16 + 48) W3 = schedule_ext 48 w16"
    by (simp_all add: W3_def)
  have W3': "W3 = ?ws" using W3 by simp
  from group_rounds [OF assms(1) W0 l16]
  have S1: "length S1 = 8" "vars_of S1 = foldl (\<lambda>v j. ?f v (j + 0)) (vars_of S) [0..<16]"
    by (simp_all add: S1_def)
  from group_rounds [OF S1(1) W1(2) l16]
  have S2: "length S2 = 8" "vars_of S2 = foldl (\<lambda>v j. ?f v (j + 16)) (vars_of S1) [0..<16]"
    by (simp_all add: S2_def)
  from group_rounds [OF S2(1) W2(2) l16]
  have S3: "length S3 = 8" "vars_of S3 = foldl (\<lambda>v j. ?f v (j + 32)) (vars_of S2) [0..<16]"
    by (simp_all add: S3_def)
  from group_rounds [OF S3(1) W3(2) l16]
  have S4: "length S4 = 8" "vars_of S4 = foldl (\<lambda>v j. ?f v (j + 48)) (vars_of S3) [0..<16]"
    by (simp_all add: S4_def)
  have "vars_of S4 = rounds_spec ?ws (vars_of S)"
    unfolding S4(2) S3(2) S2(2) S1(2)
    by (simp only: rounds_spec_upt [of ?ws, simplified length_schedule_ext l16, simplified]
        foldl_64_groups [of ?f])
  then have "S4 = list_of_vars (rounds_spec ?ws (vars_of S))"
    using list_of_vars_of [OF S4(1)] by simp
  moreover have "SHA256_Mix 0 S W = (S4, W3)"
    unfolding SHA256_Mix_unfold Let_def S4_def S3_def S2_def S1_def W3_def W2_def W1_def ..
  ultimately show ?thesis using W3' by simp
qed

lemma upt_0_8: "[0..<8] = [0, 1, 2, 3, 4, 5, 6, 7]"
  by (simp add: eval_nat_numeral)

lemma feed_forward:
  "length st = 8 \<Longrightarrow>
   foldl (\<lambda>st k. st[k := st ! k + S ! k]) st [0..<8] =
     [st ! 0 + S ! 0, st ! 1 + S ! 1, st ! 2 + S ! 2, st ! 3 + S ! 3,
      st ! 4 + S ! 4, st ! 5 + S ! 5, st ! 6 + S ! 6, st ! 7 + S ! 7]"
  by (erule length8E) (simp add: upt_0_8 list_update_Cons_numeral)

lemma be32dec_vect_8:
  "16 \<le> length W \<Longrightarrow> be32dec_vect W blk 8 = decode_block blk @ drop 16 W"
  using be32dec_vect_eq [of 7 W blk] by (simp add: decode_block_def)

lemma length_compress_spec [simp]: "length (compress_spec st blk) = 8"
  by (simp add: compress_spec_def split: prod.splits)

lemma SHA256_Transform_spec:
  assumes "length st = 8" "length W = 64" "length S = 8"
  shows "SHA256_Transform st blk W S =
           (compress_spec st blk, schedule_spec blk,
            list_of_vars (rounds_spec (schedule_spec blk) (vars_of st)))"
proof -
  have W: "be32dec_vect W blk 8 = decode_block blk @ drop 16 W"
    using assms(2) by (simp add: be32dec_vect_8)
  have S: "memcpy S 0 st 8 = st" using assms(1,3) by (simp add: memcpy_def)
  have mix: "SHA256_Mix 0 st (decode_block blk @ drop 16 W) =
      (list_of_vars (rounds_spec (schedule_spec blk) (vars_of st)), schedule_spec blk)"
    unfolding schedule_spec_def
    using assms(1,2) by (intro SHA256_Mix_spec) simp_all
  obtain a b c d e f g h where v: "rounds_spec (schedule_spec blk) (vars_of st) = (a, b, c, d, e, f, g, h)"
    by (metis surj_pair)
  show ?thesis
    unfolding SHA256_Transform_def W S Let_def mix
    by (simp add: feed_forward [OF assms(1)] compress_spec_def v list_of_vars_def del: upt_Suc)
qed

section \<open>Streaming context, padding and digests\<close>

lemma ctx_ok_simps [simp]:
  "ctx_ok (ctx\<lparr>count := c\<rparr>) = ctx_ok ctx"
  "length st = 8 \<Longrightarrow> ctx_ok (ctx\<lparr>state := st\<rparr>) = (length (buf ctx) = 64)"
  "length b = 64 \<Longrightarrow> ctx_ok (ctx\<lparr>buf := b\<rparr>) = (length (state ctx) = 8)"
  by (simp_all add: ctx_ok_def)

lemma Transform_call_spec:
  assumes "length (state ctx) = 8" "work_ok w"
  shows "Transform_call ctx blk w =
           (ctx\<lparr>state := compress_spec (state ctx) blk\<rparr>,
            w\<lparr>tmp32 := schedule_spec blk @
                         list_of_vars (rounds_spec (schedule_spec blk) (vars_of (state ctx))),
              trace := trace w @ [blk]\<rparr>)"
  using assms
  by (simp add: Transform_call_def work_ok_def SHA256_Transform_spec)

lemma length_list_of_vars [simp]: "length (list_of_vars v) = 8"
  by (simp add: list_of_vars_def split: prod.splits)

lemma Transform_call_props:
  assumes "length (state ctx) = 8" "work_ok w"
  shows "state (fst (Transform_call ctx blk w)) = compress_spec (state ctx) blk"
    and "count (fst (Transform_call ctx blk w)) = count ctx"
    and "buf (fst (Transform_call ctx blk w)) = buf ctx"
    and "trace (snd (Transform_call ctx blk w)) = trace w @ [blk]"
    and "work_ok (snd (Transform_call ctx blk w))"
  by (simp_all add: Transform_call_spec [OF assms] work_ok_def)

declare blocks_of.simps [simp del] SHA256_Update_blocks.simps [simp del]

lemma blocks_of_short [simp]: "length bs < 64 \<Longrightarrow> blocks_of bs = []"
  by (subst blocks_of.simps) simp

lemma blocks_of_block: "length b = 64 \<Longrightarrow> blocks_of (b @ bs) = b # blocks_of bs"
  by (subst blocks_of.simps) simp

lemma blocks_of_append:
  "64 dvd length as \<Longrightarrow> blocks_of (as @ bs) = blocks_of as @ blocks_of bs"
proof (induction as rule: blocks_of.induct)
  case (1 as)
  show ?case
  proof (cases "length as \<ge> 64")
    case True
    then have d: "64 dvd length (drop 64 as)" using "1.prems" by (simp add: dvd_diff_nat)
    have "blocks_of (as @ bs) = take 64 as # blocks_of (drop 64 as @ bs)"
      using True by (subst blocks_of.simps) simp
    also have "\<dots> = take 64 as # blocks_of (drop 64 as) @ blocks_of bs"
      using "1.IH" [OF True d] by simp
    also have "\<dots> = blocks_of as @ blocks_of bs"
      using True by (subst (2) blocks_of.simps) simp
    finally show ?thesis .
  next
    case False
    with "1.prems" have "as = []" by (cases "length as = 0") (auto dest: dvd_imp_le)
    then show ?thesis by simp
  qed
qed

lemma split_rest: "take (length bs - length bs mod 64) bs @ rest_of bs = bs"
  by (simp add: rest_of_def)

lemma length_rest_of [simp]: "length (rest_of bs) = length bs mod 64"
  by (simp add: rest_of_def) 

lemma dvd_full: "64 dvd length (take (length bs - length bs mod 64) bs)"
proof -
  have "length (take (length bs - length bs mod 64) bs) = length bs - length bs mod 64"
    by simp
  then show ?thesis by (simp only: dvd_minus_mod)
qed

lemma blocks_of_take_full:
  "blocks_of (take (length bs - length bs mod 64) bs) = blocks_of bs"
proof -
  have "blocks_of bs = blocks_of (take (length bs - length bs mod 64) bs @ rest_of bs)"
    by (simp only: split_rest)
  also have "\<dots> = blocks_of (take (length bs - length bs mod 64) bs) @ blocks_of (rest_of bs)"
    by (rule blocks_of_append) (rule dvd_full)
  finally show ?thesis by simp
qed

lemma blocks_of_app_rest:
  "blocks_of (M @ inp) = blocks_of M @ blocks_of (rest_of M @ inp)"
proof -
  have "blocks_of (M @ inp) = blocks_of (take (length M - length M mod 64) M @ (rest_of M @ inp))"
    by (simp only: append_assoc [symmetric] split_rest)
  also have "\<dots> = blocks_of (take (length M - length M mod 64) M) @ blocks_of (rest_of M @ inp)"
    by (rule blocks_of_append) (rule dvd_full)
  finally show ?thesis by (simp only: blocks_of_take_full)
qed

lemma rest_of_append_full:
  assumes "64 dvd length A"
  shows "rest_of (A @ B) = rest_of B"
proof -
  from assms obtain k where k: "length A = 64 * k" by (rule dvdE)
  have m: "length (A @ B) mod 64 = length B mod 64" by (simp add: k)
  have le: "length B mod 64 \<le> length B" by simp
  have n: "length (A @ B) - length B mod 64 = length A + (length B - length B mod 64)"
    using le by simp
  show ?thesis
    unfolding rest_of_def m n by simp
qed

lemma rest_of_app_rest: "rest_of (M @ inp) = rest_of (rest_of M @ inp)"
proof -
  have "rest_of (take (length M - length M mod 64) M @ (rest_of M @ inp)) = rest_of (rest_of M @ inp)"
    by (rule rest_of_append_full) (rule dvd_full)
  then show ?thesis by (simp only: append_assoc [symmetric] split_rest)
qed

lemma rest_of_short [simp]: "length bs < 64 \<Longrightarrow> rest_of bs = bs"
  by (simp add: rest_of_def)

lemma fedI:
  assumes "length (state c) = 8" "length (buf c) = 64"
    "state c = foldl compress_spec initial_state (blocks_of M)"
    "count c = of_nat (8 * length M)"
    "take (length M mod 64) (buf c) = rest_of M"
  shows "fed c M"
  unfolding fed_def ctx_ok_def using assms by blast

lemma buffered_of_nat:
  "unat (drop_bit 3 (of_nat (8 * n) :: u64) AND 0x3F) = n mod 64"
proof -
  have mask: "(0x3F :: u64) = mask 6" by (simp add: mask_eq_exp_minus_1)
  have "unat (drop_bit 3 (of_nat (8 * n) :: u64) AND mask 6)
          = take_bit 6 (drop_bit 3 ((8 * n) mod 2 ^ LENGTH(64)))"
    by (simp only: take_bit_eq_mask [symmetric] unsigned_take_bit_eq unat_drop_bit_eq unat_of_nat)
  also have "\<dots> = ((8 * n) mod 2 ^ 64 div 2 ^ 3) mod 2 ^ 6"
    by (simp add: drop_bit_eq_div take_bit_eq_mod)
  also have "\<dots> = n mod 64"
  proof -
    have "(8 * n) mod 2 ^ 64 = 8 * (n mod 2 ^ 61)"
      using mult_mod_right [of 8 n "2 ^ 61"] by simp
    then have "(8 * n) mod 2 ^ 64 div 2 ^ 3 = n mod 2 ^ 61" by simp
    moreover have "n mod 2 ^ 61 mod 2 ^ 6 = n mod 2 ^ 6"
      by (rule mod_mod_cancel) (simp add: le_imp_power_dvd)
    ultimately show ?thesis by simp
  qed
  finally show ?thesis by (simp only: mask)
qed

lemma buffered_fed:
  assumes "fed ctx M"
  shows "buffered ctx = length M mod 64"
proof -
  from assms have "count ctx = of_nat (8 * length M)" by (simp only: fed_def)
  then show ?thesis unfolding buffered_def by (simp only: buffered_of_nat)
qed

lemma length_initial_state [simp]: "length initial_state = 8"
  by (simp add: initial_state_def)

lemma SHA256_Init_fed:
  assumes "ctx_ok c"
  shows "fed (SHA256_Init c) []"
  using assms by (simp add: fed_def SHA256_Init_def ctx_ok_def memcpy_def rest_of_def)

lemma length_foldl_compress [simp]:
  "length st = 8 \<Longrightarrow> length (foldl compress_spec st bs) = 8"
  by (induction bs arbitrary: st) simp_all

lemma SHA256_Update_blocks_spec:
  assumes "length (state ctx) = 8" "work_ok w"
  shows "fst (SHA256_Update_blocks ctx src w) =
           ctx\<lparr>state := foldl compress_spec (state ctx) (blocks_of src)\<rparr> \<and>
         fst (snd (SHA256_Update_blocks ctx src w)) = rest_of src \<and>
         trace (snd (snd (SHA256_Update_blocks ctx src w))) = trace w @ blocks_of src \<and>
         work_ok (snd (snd (SHA256_Update_blocks ctx src w)))"
  using assms
proof (induction ctx src w rule: SHA256_Update_blocks.induct)
  case (1 ctx src w)
  show ?case
  proof (cases "length src \<ge> 64")
    case False
    then show ?thesis using "1.prems"
      by (subst (1 2 3 4) SHA256_Update_blocks.simps) simp
  next
    case True
    let ?r = "Transform_call ctx (take 64 src) w"
    have p: "?r = (fst ?r, snd ?r)" by simp
    note tc = Transform_call_props [OF "1.prems", of "take 64 src"]
    have l: "length (state (fst ?r)) = 8" by (simp add: tc(1))
    note IH = "1.IH" [OF True refl p [symmetric] l tc(5)]
    have unf: "SHA256_Update_blocks ctx src w = SHA256_Update_blocks (fst ?r) (drop 64 src) (snd ?r)"
      using True by (subst SHA256_Update_blocks.simps) (simp add: case_prod_beta)
    have b: "blocks_of src = take 64 src # blocks_of (drop 64 src)"
      using True by (subst blocks_of.simps) simp
    have "rest_of (take 64 src @ drop 64 src) = rest_of (drop 64 src)"
      using True by (intro rest_of_append_full) simp
    then have r: "rest_of (drop 64 src) = rest_of src" by simp
    have e: "fst ?r = ctx\<lparr>state := compress_spec (state ctx) (take 64 src)\<rparr>"
      by (simp add: Transform_call_spec [OF "1.prems"])
    show ?thesis
      unfolding unf using IH by (simp add: b r tc e)
  qed
qed

lemma count_add: "(of_nat (8 * n) :: u64) + push_bit 3 (of_nat m) = of_nat (8 * (n + m))"
  by (simp add: push_bit_eq_mult algebra_simps)

lemma SHA256_Update_fed:
  assumes "fed ctx M" "work_ok w"
  shows "fed (fst (SHA256_Update ctx inp w)) (M @ inp) \<and>
         work_ok (snd (SHA256_Update ctx inp w)) \<and>
         trace (snd (SHA256_Update ctx inp w)) = trace w @ blocks_of (rest_of M @ inp)"
proof -
  let ?r = "length M mod 64"
  have r: "buffered ctx = ?r" using assms(1) by (rule buffered_fed)
  have ok: "length (state ctx) = 8" "length (buf ctx) = 64"
    using assms(1) by (simp_all add: fed_def ctx_ok_def)
  have st: "state ctx = foldl compress_spec initial_state (blocks_of M)"
    using assms(1) by (simp only: fed_def)
  have t: "take ?r (buf ctx) = rest_of M" using assms(1) by (simp only: fed_def)
  have "count ctx = of_nat (8 * length M)" using assms(1) by (simp only: fed_def)
  then have cnt: "count ctx + push_bit 3 (of_nat (length inp)) = of_nat (8 * length (M @ inp))"
    by (simp only: count_add length_append)
  consider (empty) "inp = []" | (short) "inp \<noteq> []" "length inp < 64 - ?r"
    | (long) "inp \<noteq> []" "\<not> length inp < 64 - ?r" by blast
  then show ?thesis
  proof cases
    case empty
    then show ?thesis using assms by (simp add: SHA256_Update_def)
  next
    case short
    have bl: "blocks_of (rest_of M @ inp) = []" using short(2) by simp
    have rs: "rest_of (M @ inp) = rest_of M @ inp"
      using short(2) by (simp add: rest_of_app_rest [of M inp])
    have md: "length (M @ inp) mod 64 = ?r + length inp"
      using arg_cong [OF rs, of length] by simp
    have upd: "SHA256_Update ctx inp w =
        (ctx\<lparr>count := of_nat (8 * length (M @ inp)),
             buf := memcpy (buf ctx) ?r inp (length inp)\<rparr>, w)"
      using short by (simp add: SHA256_Update_def Let_def r cnt)
    have lb: "length (memcpy (buf ctx) ?r inp (length inp)) = 64"
      using short(2) ok(2) by (simp add: memcpy_def)
    have tk: "take (?r + length inp) (memcpy (buf ctx) ?r inp (length inp)) = rest_of M @ inp"
      using ok(2) by (simp add: memcpy_def t [symmetric])
    have bM: "blocks_of (M @ inp) = blocks_of M"
      by (simp only: blocks_of_app_rest [of M inp] bl append_Nil2)
    have "fed (fst (SHA256_Update ctx inp w)) (M @ inp)"
      unfolding upd fst_conv
    proof (rule fedI)
      show "take (length (M @ inp) mod 64)
             (buf (ctx\<lparr>count := of_nat (8 * length (M @ inp)),
                       buf := memcpy (buf ctx) ?r inp (length inp)\<rparr>)) = rest_of (M @ inp)"
        unfolding md rs by (simp add: tk)
    qed (simp_all add: ok lb st bM)
    then show ?thesis
      unfolding upd by (simp add: bl assms(2))
  next
    case long
    define buf1 where "buf1 = memcpy (buf ctx) ?r inp (64 - ?r)"
    define src where "src = drop (64 - ?r) inp"
    have buf1: "buf1 = rest_of M @ take (64 - ?r) inp"
      using ok(2) by (simp add: buf1_def memcpy_def t [symmetric])
    have l1: "length buf1 = 64" using long(2) by (simp add: buf1)
    have cat: "rest_of M @ inp = buf1 @ src" by (simp add: buf1 src_def)
    define ctx1 where "ctx1 = ctx\<lparr>count := of_nat (8 * length (M @ inp)), buf := buf1\<rparr>"
    define r1 where "r1 = Transform_call ctx1 buf1 w"
    define r2 where "r2 = SHA256_Update_blocks (fst r1) src (snd r1)"
    have upd: "SHA256_Update ctx inp w =
        ((fst r2)\<lparr>buf := memcpy (buf (fst r2)) 0 (fst (snd r2)) (length (fst (snd r2)))\<rparr>,
         snd (snd r2))"
      using long
      by (simp add: SHA256_Update_def Let_def r cnt case_prod_beta
          r2_def r1_def ctx1_def buf1_def src_def)
    have s1: "length (state ctx1) = 8" by (simp add: ctx1_def ok)
    note tc = Transform_call_props [OF s1 assms(2), of buf1, folded r1_def]
    have s2: "length (state (fst r1)) = 8" by (simp add: tc(1))
    note ub = SHA256_Update_blocks_spec [OF s2 tc(5), of src, folded r2_def]
    have e1: "fst r1 = ctx1\<lparr>state := compress_spec (state ctx1) buf1\<rparr>"
      unfolding r1_def by (simp add: Transform_call_spec [OF s1 assms(2)])
    have bl: "blocks_of (rest_of M @ inp) = buf1 # blocks_of src"
      unfolding cat using l1 by (rule blocks_of_block)
    have rs: "rest_of (M @ inp) = rest_of src"
      unfolding rest_of_app_rest [of M inp] cat
      by (rule rest_of_append_full) (simp add: l1)
    have md: "length (M @ inp) mod 64 = length (rest_of src)"
      using arg_cong [OF rs, of length] by simp
    have lr: "length (rest_of src) < 64" by simp
    have bM: "blocks_of (M @ inp) = blocks_of M @ buf1 # blocks_of src"
      by (simp only: blocks_of_app_rest [of M inp] bl)
    have fin: "fst (SHA256_Update ctx inp w) =
        ctx\<lparr>count := of_nat (8 * length (M @ inp)),
            state := foldl compress_spec initial_state (blocks_of (M @ inp)),
            buf := memcpy buf1 0 (rest_of src) (length (rest_of src))\<rparr>"
      unfolding upd using ub
      by (simp add: e1 ctx1_def bM st)
    have lb: "length (memcpy buf1 0 (rest_of src) (length (rest_of src))) = 64"
      using lr l1 unfolding memcpy_def by (simp del: length_rest_of)
    have tk: "take (length (rest_of src)) (memcpy buf1 0 (rest_of src) (length (rest_of src)))
               = rest_of src"
      unfolding memcpy_def by (simp del: length_rest_of)
    have "fed (fst (SHA256_Update ctx inp w)) (M @ inp)"
      unfolding fin
    proof (rule fedI)
      show "take (length (M @ inp) mod 64)
             (buf (ctx\<lparr>count := of_nat (8 * length (M @ inp)),
                       state := foldl compress_spec initial_state (blocks_of (M @ inp)),
                       buf := memcpy buf1 0 (rest_of src) (length (rest_of src))\<rparr>))
            = rest_of (M @ inp)"
        unfolding md rs by (simp add: tk del: length_rest_of)
    qed (simp_all add: lb ok del: length_rest_of)
    moreover have "work_ok (snd (SHA256_Update ctx inp w))"
      unfolding upd using ub by simp
    moreover have "trace (snd (SHA256_Update ctx inp w)) = trace w @ blocks_of (rest_of M @ inp)"
      unfolding upd using ub by (simp add: tc(4) bl)
    ultimately show ?thesis by blast
  qed
qed

lemma SHA256_Updates_fed:
  assumes "fed ctx M" "work_ok w"
  shows "fed (fst (SHA256_Updates ctx chunks w)) (M @ concat chunks) \<and>
         work_ok (snd (SHA256_Updates ctx chunks w)) \<and>
         trace (snd (SHA256_Updates ctx chunks w)) = trace w @ blocks_of (rest_of M @ concat chunks)"
  using assms
proof (induction chunks arbitrary: ctx M w)
  case Nil
  then show ?case by simp
next
  case (Cons c cs)
  let ?u = "SHA256_Update ctx c w"
  note u = SHA256_Update_fed [OF Cons.prems, of c]
  from u have u1: "fed (fst ?u) (M @ c)" and u2: "work_ok (snd ?u)"
    and u3: "trace (snd ?u) = trace w @ blocks_of (rest_of M @ c)" by blast+
  note IH = Cons.IH [OF u1 u2]
  have tr: "blocks_of (rest_of M @ c @ concat cs)
          = blocks_of (rest_of M @ c) @ blocks_of (rest_of (M @ c) @ concat cs)"
    using blocks_of_app_rest [of "rest_of M @ c" "concat cs"]
    by (simp add: rest_of_app_rest [of M c])
  show ?case
    using IH by (simp add: case_prod_beta u3 tr)
qed

lemma buffered_lt: "buffered ctx < 64"
proof -
  have "unat (drop_bit 3 (count ctx) AND 0x3F) \<le> unat (0x3F :: u64)"
    by (rule word_and_le1 [THEN word_le_nat_alt [THEN iffD1]])
  then show ?thesis by (simp add: buffered_def)
qed

lemma length_be64enc [simp]: "length (be64enc x) = 8"
  by (simp add: be64enc_def)

lemma length_be32enc [simp]: "length (be32enc x) = 4"
  by (simp add: be32enc_def)

lemma take_PAD: "0 < n \<Longrightarrow> n \<le> 64 \<Longrightarrow> take n PAD = 0x80 # replicate (n - 1) 0"
  by (cases n) (simp_all add: PAD_def min_def)

lemma memcpy_at_end:
  "length A = off \<Longrightarrow> length e = n \<Longrightarrow> memcpy (A @ B) off e n = A @ e @ drop n B"
  by (simp add: memcpy_def)

lemma SHA256_Pad_spec:
  assumes "ctx_ok ctx" "work_ok w"
  defines "bl \<equiv> pad_blocks (count ctx) (take (buffered ctx) (buf ctx))"
  shows "state (fst (SHA256_Pad ctx w)) = foldl compress_spec (state ctx) bl"
    and "count (fst (SHA256_Pad ctx w)) = count ctx"
    and "buf (fst (SHA256_Pad ctx w)) = last bl"
    and "trace (snd (SHA256_Pad ctx w)) = trace w @ bl"
    and "work_ok (snd (SHA256_Pad ctx w))"
proof -
  let ?r = "buffered ctx"
  have ok: "length (state ctx) = 8" "length (buf ctx) = 64"
    using assms(1) by (simp_all add: ctx_ok_def)
  have r64: "?r < 64" by (rule buffered_lt)
  have all: "state (fst (SHA256_Pad ctx w)) = foldl compress_spec (state ctx) bl \<and>
     count (fst (SHA256_Pad ctx w)) = count ctx \<and>
     buf (fst (SHA256_Pad ctx w)) = last bl \<and>
     trace (snd (SHA256_Pad ctx w)) = trace w @ bl \<and>
     work_ok (snd (SHA256_Pad ctx w))"
  proof (cases "?r < 56")
    case True
    define b2 where "b2 = take ?r (buf ctx) @ 0x80 # replicate (55 - ?r) 0 @ be64enc (count ctx)"
    have bl: "bl = [b2]" using True ok by (simp add: bl_def pad_blocks_def b2_def)
    define A where "A = take ?r (buf ctx) @ 0x80 # replicate (55 - ?r) 0"
    have a: "memcpy (buf ctx) ?r PAD (56 - ?r) = A @ drop 56 (buf ctx)"
      using True ok by (simp add: memcpy_def take_PAD A_def)
    have la: "length A = 56" using True ok by (simp add: A_def)
    have m: "memcpy (memcpy (buf ctx) ?r PAD (56 - ?r)) 56 (be64enc (count ctx)) 8 = b2"
    proof -
      have "memcpy (A @ drop 56 (buf ctx)) 56 (be64enc (count ctx)) 8
              = A @ be64enc (count ctx) @ drop 8 (drop 56 (buf ctx))"
        by (rule memcpy_at_end [OF la]) simp
      then show ?thesis unfolding a b2_def A_def using ok by simp
    qed
    have pad: "SHA256_Pad ctx w = Transform_call (ctx\<lparr>buf := b2\<rparr>) b2 w"
      using True by (simp add: SHA256_Pad_def Let_def m)
    have s: "length (state (ctx\<lparr>buf := b2\<rparr>)) = 8" by (simp add: ok)
    show ?thesis
      unfolding pad using Transform_call_props [OF s assms(2), of b2]
      by (simp add: bl)
  next
    case False
    define b1 where "b1 = take ?r (buf ctx) @ 0x80 # replicate (63 - ?r) 0"
    define b2 where "b2 = replicate 56 0 @ be64enc (count ctx)"
    have bl: "bl = [b1, b2]"
      using False ok r64 by (simp add: bl_def pad_blocks_def b1_def b2_def min_def)
    have m1: "memcpy (buf ctx) ?r PAD (64 - ?r) = b1"
      using False r64 ok by (simp add: memcpy_def take_PAD b1_def)
    have l1: "length b1 = 64" using r64 ok by (simp add: b1_def)
    have m2: "memcpy (memset b1 0 0 56) 56 (be64enc (count ctx)) 8 = b2"
      using l1 by (simp add: memcpy_def memset_def b2_def)
    define r1 where "r1 = Transform_call (ctx\<lparr>buf := b1\<rparr>) b1 w"
    have s1: "length (state (ctx\<lparr>buf := b1\<rparr>)) = 8" by (simp add: ok)
    note t1 = Transform_call_props [OF s1 assms(2), of b1, folded r1_def]
    have pad: "SHA256_Pad ctx w = Transform_call ((fst r1)\<lparr>buf := b2\<rparr>) b2 (snd r1)"
      using False by (simp add: SHA256_Pad_def Let_def m1 case_prod_beta r1_def [symmetric] t1 m2)
    have s2: "length (state ((fst r1)\<lparr>buf := b2\<rparr>)) = 8" by (simp add: t1)
    show ?thesis
      unfolding pad using Transform_call_props [OF s2 t1(5), of b2]
      by (simp add: bl t1)
  qed
  from all show "state (fst (SHA256_Pad ctx w)) = foldl compress_spec (state ctx) bl"
    and "count (fst (SHA256_Pad ctx w)) = count ctx"
    and "buf (fst (SHA256_Pad ctx w)) = last bl"
    and "trace (snd (SHA256_Pad ctx w)) = trace w @ bl"
    and "work_ok (snd (SHA256_Pad ctx w))" by blast+
qed

lemma be32enc_vect_eq:
  "2 * Suc n \<le> length src \<Longrightarrow>
   be32enc_vect dst src (Suc n) =
     concat (map be32enc (take (2 * Suc n) src)) @ drop (8 * Suc n) dst"
proof (induction n arbitrary: dst src)
  case 0
  then obtain a b rest where src: "src = a # b # rest"
    by (cases src; simp; cases "tl src"; auto)
  show ?case
    by (subst be32enc_vect.simps) (simp add: src Let_def memcpy_def)
next
  case (Suc n)
  then obtain a b rest where src: "src = a # b # rest"
    by (cases src; simp; cases "tl src"; auto)
  have len: "2 * Suc n \<le> length rest" using Suc.prems src by simp
  have step: "be32enc_vect dst src (Suc (Suc n)) =
      be32enc a @ be32enc b @ be32enc_vect (drop 8 dst) rest (Suc n)"
    by (subst be32enc_vect.simps) (simp add: src Let_def memcpy_def)
  show ?case
    unfolding step Suc.IH [OF len] by (simp add: src add.commute)
qed

lemma be32enc_vect_4:
  "length st = 8 \<Longrightarrow> be32enc_vect dst st 4 = concat (map be32enc st) @ drop 32 dst"
  using be32enc_vect_eq [of 3 st dst] by simp

lemma length_pad_blocks:
  "length t < 64 \<Longrightarrow> b \<in> set (pad_blocks cnt t) \<Longrightarrow> length b = 64"
  by (auto simp: pad_blocks_def split: if_splits)

lemma pad_blocks_not_Nil [simp]: "pad_blocks cnt t \<noteq> []"
  by (simp add: pad_blocks_def)

lemma SHA256_Pad_ok:
  assumes "ctx_ok ctx" "work_ok w"
  shows "ctx_ok (fst (SHA256_Pad ctx w))"
proof -
  have ok: "length (state ctx) = 8" "length (buf ctx) = 64"
    using assms(1) by (simp_all add: ctx_ok_def)
  let ?bl = "pad_blocks (count ctx) (take (buffered ctx) (buf ctx))"
  have "length (take (buffered ctx) (buf ctx)) < 64"
    using buffered_lt [of ctx] ok by simp
  moreover have "last ?bl \<in> set ?bl" by simp
  ultimately have "length (last ?bl) = 64" by (rule length_pad_blocks)
  then show ?thesis
    unfolding ctx_ok_def by (simp add: SHA256_Pad_spec [OF assms] ok)
qed

lemma SHA256_Final_fed:
  assumes "fed ctx M" "work_ok w"
  shows "fst (SHA256_Final dg ctx w) = sha256_spec M @ drop 32 dg"
proof -
  have ok: "ctx_ok ctx" using assms(1) by (simp only: fed_def)
  have st: "state ctx = foldl compress_spec initial_state (blocks_of M)"
    using assms(1) by (simp only: fed_def)
  have cnt: "count ctx = of_nat (8 * length M)" using assms(1) by (simp only: fed_def)
  have t: "take (buffered ctx) (buf ctx) = rest_of M"
    using assms(1) by (simp only: fed_def buffered_fed [OF assms(1)])
  have "state (fst (SHA256_Pad ctx w)) =
          foldl compress_spec initial_state
            (blocks_of M @ pad_blocks (of_nat (8 * length M)) (rest_of M))"
    unfolding SHA256_Pad_spec(1) [OF ok assms(2)] t cnt st by (simp only: foldl_append)
  moreover have "length (state (fst (SHA256_Pad ctx w))) = 8"
    using SHA256_Pad_ok [OF ok assms(2)] by (simp add: ctx_ok_def)
  ultimately show ?thesis
    by (simp add: SHA256_Final_def case_prod_beta be32enc_vect_4 sha256_spec_def)
qed

lemma SHA256_stream_spec:
  assumes "ctx_ok c" "work_ok w"
  shows "SHA256_stream c w chunks dg = sha256_spec (concat chunks) @ drop 32 dg"
proof -
  note i = SHA256_Init_fed [OF assms(1)]
  note u = SHA256_Updates_fed [OF i assms(2), of chunks]
  from u have "fed (fst (SHA256_Updates (SHA256_Init c) chunks w)) (concat chunks)"
    and "work_ok (snd (SHA256_Updates (SHA256_Init c) chunks w))" by simp_all
  from SHA256_Final_fed [OF this, of dg] show ?thesis
    by (simp add: SHA256_stream_def case_prod_beta)
qed

lemma SHA256_Buf_spec:
  assumes "ctx_ok c" "work_ok w"
  shows "SHA256_Buf c w M dg = sha256_spec M @ drop 32 dg"
proof -
  note i = SHA256_Init_fed [OF assms(1)]
  note u = SHA256_Update_fed [OF i assms(2), of M]
  from u have "fed (fst (SHA256_Update (SHA256_Init c) M w)) M"
    and "work_ok (snd (SHA256_Update (SHA256_Init c) M w))" by simp_all
  from SHA256_Final_fed [OF this, of dg] show ?thesis
    by (simp add: SHA256_Buf_def case_prod_beta)
qed

lemma length_sha256_spec [simp]: "length (sha256_spec M) = 32"
proof -
  have "length (concat (map be32enc st)) = 4 * length st" for st
    by (induction st) simp_all
  then show ?thesis by (simp add: sha256_spec_def)
qed

lemma SHA256_Final_ok:
  assumes "ctx_ok ctx" "work_ok w"
  shows "ctx_ok (fst (snd (SHA256_Final dg ctx w)))" "work_ok (snd (snd (SHA256_Final dg ctx w)))"
  using SHA256_Pad_ok [OF assms] SHA256_Pad_spec(5) [OF assms]
  by (simp_all add: SHA256_Final_def case_prod_beta)

lemma SHA256d_Buf_spec:
  assumes "ctx_ok c" "work_ok w"
  shows "SHA256d_Buf c w M dg =
           (if length M > 32 + (length dg - 32) then Inl OutOfBounds
            else Inr (sha256_spec (take (length M) (sha256_spec M @ drop 32 dg)) @ drop 32 dg))"
proof -
  note i = SHA256_Init_fed [OF assms(1)]
  define u where "u = SHA256_Update (SHA256_Init c) M w"
  note uf = SHA256_Update_fed [OF i assms(2), of M, folded u_def]
  from uf have u1: "fed (fst u) M" and u2: "work_ok (snd u)" by simp_all
  define f where "f = SHA256_Final dg (fst u) (snd u)"
  have f1: "fst f = sha256_spec M @ drop 32 dg"
    unfolding f_def by (rule SHA256_Final_fed [OF u1 u2])
  have uok: "ctx_ok (fst u)" using u1 by (simp only: fed_def)
  note fok = SHA256_Final_ok [OF uok u2, of dg, folded f_def]
  note i2 = SHA256_Init_fed [OF fok(1)]
  define inp2 where "inp2 = take (length M) (fst f)"
  define u' where "u' = SHA256_Update (SHA256_Init (fst (snd f))) inp2 (snd (snd f))"
  note uf' = SHA256_Update_fed [OF i2 fok(2), of inp2, folded u'_def]
  from uf' have u1': "fed (fst u') inp2" and u2': "work_ok (snd u')" by simp_all
  have f2: "fst (SHA256_Final (fst f) (fst u') (snd u')) = sha256_spec inp2 @ drop 32 (fst f)"
    by (rule SHA256_Final_fed [OF u1' u2'])
  have unf: "SHA256d_Buf c w M dg =
      (if length M > length (fst f) then Inl OutOfBounds
       else Inr (fst (SHA256_Final (fst f) (fst u') (snd u'))))"
    by (simp add: SHA256d_Buf_def Let_def case_prod_beta u_def f_def u'_def inp2_def)
  show ?thesis
    unfolding unf f2 by (simp add: f1 inp2_def)
qed

section \<open>Evaluation rules\<close>

lemma W32_add: "W32 a + W32 b = W32 ((a + b) mod 4294967296)"
  by (simp add: W32_def word_of_nat_eq_iff take_bit_eq_mod flip: of_nat_add)

lemma W32_xor: "W32 a XOR W32 b = W32 (a XOR b)"
  by (simp add: W32_def of_nat_xor_eq)

lemma W32_and: "W32 a AND W32 b = W32 (a AND b)"
  by (simp add: W32_def of_nat_and_eq)

lemma W32_or: "W32 a OR W32 b = W32 (a OR b)"
  by (simp add: W32_def of_nat_or_eq)

lemma W32_drop_bit: "drop_bit n (W32 a) = W32 (shrn a n)"
proof -
  have "drop_bit n (W32 a) = of_nat (unat (drop_bit n (W32 a)))" by simp
  also have "\<dots> = of_nat (drop_bit n (a mod 2 ^ LENGTH(32)))"
    by (simp only: unat_drop_bit_eq W32_def unat_of_nat)
  finally show ?thesis by (simp add: W32_def shrn_def drop_bit_eq_div)
qed

lemma W32_mod: "W32 (a mod 4294967296) = W32 a"
  by (simp add: W32_def word_of_nat_eq_iff take_bit_eq_mod)

lemma W32_push_bit: "push_bit n (W32 a) = W32 (a * 2 ^ n mod 4294967296)"
  unfolding W32_mod by (simp add: W32_def push_bit_eq_mult)

lemma W32_rotr: "0 < n \<Longrightarrow> n < 32 \<Longrightarrow> rotr (W32 a) n = W32 (rotn a n)"
  by (simp add: ROTR_eq [symmetric] ROTR_def W32_drop_bit W32_push_bit W32_or rotn_def shrn_def)

lemma W32_Ch: "Ch_spec (W32 a) (W32 b) (W32 c) = W32 ((a AND (b XOR c)) XOR c)"
  by (simp add: Ch_eq [symmetric] Ch_def W32_xor W32_and)

lemma W32_Maj: "Maj_spec (W32 a) (W32 b) (W32 c) = W32 ((a AND b) OR (a AND c) OR (b AND c))"
  by (simp add: Maj_spec_def W32_and W32_or)

lemma W32_sigma0: "sigma0 (W32 a) = W32 (rotn a 7 XOR rotn a 18 XOR shrn a 3)"
  by (simp add: sigma0_def W32_rotr W32_drop_bit W32_xor)

lemma W32_sigma1: "sigma1 (W32 a) = W32 (rotn a 17 XOR rotn a 19 XOR shrn a 10)"
  by (simp add: sigma1_def W32_rotr W32_drop_bit W32_xor)

lemma W32_Sigma0: "Sigma0 (W32 a) = W32 (rotn a 2 XOR rotn a 13 XOR rotn a 22)"
  by (simp add: Sigma0_def W32_rotr W32_xor)

lemma W32_Sigma1: "Sigma1 (W32 a) = W32 (rotn a 6 XOR rotn a 11 XOR rotn a 25)"
  by (simp add: Sigma1_def W32_rotr W32_xor)

lemma W32_round:
  "round_spec (W32 k) (W32 w) (W32 a, W32 b, W32 c, W32 d, W32 e, W32 f, W32 g, W32 h) =
     round_fin ((h + (rotn e 6 XOR rotn e 11 XOR rotn e 25) + ((e AND (f XOR g)) XOR g) + k + w)
                  mod 4294967296) a b c d e f g"
proof -
  define T1 where "T1 = (h + (rotn e 6 XOR rotn e 11 XOR rotn e 25) + ((e AND (f XOR g)) XOR g) + k + w)
                  mod 4294967296"
  have t1: "W32 h + Sigma1 (W32 e) + Ch_spec (W32 e) (W32 f) (W32 g) + W32 k + W32 w = W32 T1"
    by (simp add: W32_Sigma1 W32_Ch W32_add mod_simps T1_def)
  have a': "W32 T1 + Sigma0 (W32 a) + Maj_spec (W32 a) (W32 b) (W32 c) =
       W32 ((T1 + (rotn a 2 XOR rotn a 13 XOR rotn a 22) + ((a AND b) OR (a AND c) OR (b AND c)))
             mod 4294967296)"
    by (simp add: W32_Sigma0 W32_Maj W32_add mod_simps)
  show ?thesis
    unfolding T1_def [symmetric]
    by (simp add: round_spec_def round_fin_def Let_def t1 a' W32_add)
qed

lemma sched_run_0: "sched_run 0 pre win = pre @ win"
  by (simp add: sched_run_def)

lemma sched_run_Suc:
  "sched_run (Suc n) pre [W32 w0, W32 w1, w2, w3, w4, w5, w6, w7, w8, W32 w9, w10, w11, w12, w13, W32 w14, w15] =
   sched_run n (pre @ [W32 w0])
     [W32 w1, w2, w3, w4, w5, w6, w7, w8, W32 w9, w10, w11, w12, w13, W32 w14, w15,
      W32 (((rotn w14 17 XOR rotn w14 19 XOR shrn w14 10) + w9
           + (rotn w1 7 XOR rotn w1 18 XOR shrn w1 3) + w0) mod 4294967296)]"
proof -
  let ?win = "[W32 w0, W32 w1, w2, w3, w4, w5, w6, w7, w8, W32 w9, w10, w11, w12, w13, W32 w14, w15]"
  have len: "length (pre @ ?win) = length pre + 16" by simp
  have e: "length pre + 16 - 2 = length pre + 14" "length pre + 16 - 7 = length pre + 9"
    "length pre + 16 - 15 = length pre + 1" "length pre + 16 - 16 = length pre + 0" by simp_all
  have "schedule_word (pre @ ?win) =
      sigma1 ((pre @ ?win) ! (length pre + 14)) + (pre @ ?win) ! (length pre + 9)
      + sigma0 ((pre @ ?win) ! (length pre + 1)) + (pre @ ?win) ! (length pre + 0)"
    unfolding schedule_word_def Let_def len e by (rule refl)
  also have "\<dots> = sigma1 (?win ! 14) + ?win ! 9 + sigma0 (?win ! 1) + ?win ! 0"
    by (simp only: nth_append_length_plus)
  also have "\<dots> = sigma1 (W32 w14) + W32 w9 + sigma0 (W32 w1) + W32 w0"
    by simp
  also have "\<dots> = W32 (((rotn w14 17 XOR rotn w14 19 XOR shrn w14 10) + w9
           + (rotn w1 7 XOR rotn w1 18 XOR shrn w1 3) + w0) mod 4294967296)"
    by (simp add: W32_sigma0 W32_sigma1 W32_add mod_simps)
  finally show ?thesis by (simp add: sched_run_def)
qed

lemma sched_run_numeral:
  "sched_run (numeral n) pre [W32 w0, W32 w1, w2, w3, w4, w5, w6, w7, w8, W32 w9, w10, w11, w12, w13, W32 w14, w15] =
   sched_run (pred_numeral n) (pre @ [W32 w0])
     [W32 w1, w2, w3, w4, w5, w6, w7, w8, W32 w9, w10, w11, w12, w13, W32 w14, w15,
      W32 (((rotn w14 17 XOR rotn w14 19 XOR shrn w14 10) + w9
           + (rotn w1 7 XOR rotn w1 18 XOR shrn w1 3) + w0) mod 4294967296)]"
  using sched_run_Suc [of "pred_numeral n"] by (simp only: numeral_eq_Suc [symmetric])

lemma sched_run_1:
  "sched_run 1 pre [W32 w0, W32 w1, w2, w3, w4, w5, w6, w7, w8, W32 w9, w10, w11, w12, w13, W32 w14, w15] =
   sched_run 0 (pre @ [W32 w0])
     [W32 w1, w2, w3, w4, w5, w6, w7, w8, W32 w9, w10, w11, w12, w13, W32 w14, w15,
      W32 (((rotn w14 17 XOR rotn w14 19 XOR shrn w14 10) + w9
           + (rotn w1 7 XOR rotn w1 18 XOR shrn w1 3) + w0) mod 4294967296)]"
  unfolding One_nat_def by (rule sched_run_Suc)

lemma schedule_spec_run: "schedule_spec blk = sched_run 48 [] (decode_block blk)"
  by (simp add: schedule_spec_def sched_run_def)


lemma numeral_W32: "(numeral k :: u32) = W32 (numeral k)"
  by (simp add: W32_def)

lemma numeral_B8: "(numeral k :: u8) = B8 (numeral k)" "(0 :: u8) = B8 0" "(1 :: u8) = B8 1"
  by (simp_all add: B8_def)

lemma be32dec_B8:
  "be32dec [B8 a, B8 b, B8 c, B8 d] =
     W32 ((a mod 256) * 16777216 + (b mod 256) * 65536 + (c mod 256) * 256 + d mod 256)"
proof -
  have u: "(ucast (B8 x) :: u32) = W32 (x mod 256)" for x
    by (simp add: B8_def W32_def unsigned_of_nat take_bit_eq_mod)
  have s: "W32 x < 256 \<Longrightarrow> True" for x by simp
  show ?thesis
    by (simp add: be32dec_def u W32_push_bit W32_add mod_simps)
       (simp add: W32_def word_of_nat_eq_iff take_bit_eq_mod algebra_simps)
qed

lemma byte_W32:
  assumes "k + 8 \<le> 32"
  shows "(ucast (drop_bit k (W32 n) AND 0xFF) :: u8) = B8 (n div 2 ^ k mod 256)"
proof -
  have mask: "(0xFF :: u32) = mask 8" by (simp add: mask_eq_exp_minus_1)
  have "unat (drop_bit k (W32 n) AND mask 8) = take_bit 8 (drop_bit k (take_bit 32 n))"
    by (simp only: take_bit_eq_mask [symmetric] unsigned_take_bit_eq unat_drop_bit_eq
        W32_def unat_of_nat take_bit_eq_mod [symmetric]) simp
  also have "\<dots> = take_bit 8 (drop_bit k n)"
  proof -
    have "min 8 (32 - k) = 8" using assms by simp
    then show ?thesis by (simp add: drop_bit_take_bit)
  qed
  finally have "unat (drop_bit k (W32 n) AND 0xFF) = n div 2 ^ k mod 256"
    by (simp add: mask take_bit_eq_mod drop_bit_eq_div)
  then have "B8 (n div 2 ^ k mod 256) = of_nat (unat (drop_bit k (W32 n) AND 0xFF))"
    by (simp only: B8_def)
  also have "\<dots> = ucast (drop_bit k (W32 n) AND 0xFF)"
    by (simp only: of_nat_unat)
  finally show ?thesis by simp
qed

lemma be32enc_W32:
  "be32enc (W32 n) = [B8 (n div 16777216 mod 256), B8 (n div 65536 mod 256),
                      B8 (n div 256 mod 256), B8 (n mod 256)]"
  using byte_W32 [of 24 n] byte_W32 [of 16 n] byte_W32 [of 8 n] byte_W32 [of 0 n]
  by (simp add: be32enc_def)

section \<open>The rounds read the final schedule\<close>

lemma RNDr_cong_W: "W ! (j + i) = W' ! (j + i) \<Longrightarrow> RNDr S W j i = RNDr S W' j i"
  by (simp add: RNDr_def add.commute)

lemma sched_prefix_nth:
  assumes "take (16 + i) W = schedule_ext i w16" "length w16 = 16" "i \<le> 48" "j < 16"
  shows "W ! (j + i) = schedule_ext 48 w16 ! (j + i)"
proof -
  have "W ! (j + i) = take (16 + i) W ! (j + i)" using assms(4) by simp
  also have "\<dots> = take (length w16 + i) (schedule_ext 48 w16) ! (j + i)"
    using assms(1,3) by (simp add: take_schedule_ext_le)
  also have "\<dots> = schedule_ext 48 w16 ! (j + i)" using assms(2,4) by simp
  finally show ?thesis .
qed

lemma group_final_W:
  assumes "take (16 + i) W = schedule_ext i w16" "length w16 = 16" "i \<le> 48"
  shows "foldl (\<lambda>S j. RNDr S W j i) S [0..<16] =
         foldl (\<lambda>S j. RNDr S (schedule_ext 48 w16) j i) S [0..<16]"
proof (rule foldl_cong)
  fix R j assume "j \<in> set [0..<16]"
  then have "j < 16" by simp
  from sched_prefix_nth [OF assms this]
  show "RNDr R W j i = RNDr R (schedule_ext 48 w16) j i" by (rule RNDr_cong_W)
qed simp_all

lemma group_index:
  assumes "i = 16 * g"
  shows "foldl (\<lambda>R j. RNDr R W ((j + i) mod 16) (16 * ((j + i) div 16))) S [0..<16] =
         foldl (\<lambda>R j. RNDr R W j i) S [0..<16]"
proof (rule foldl_cong)
  fix R j assume "j \<in> set [0..<16]"
  then have j: "j < 16" by simp
  then have "(j + i) mod 16 = j" "(j + i) div 16 = g" using assms by simp_all
  then show "RNDr R W ((j + i) mod 16) (16 * ((j + i) div 16)) = RNDr R W j i"
    using assms by simp
qed simp_all

lemma SHA256_Mix_rounds_final:
  assumes "length W = 64"
  shows "fst (SHA256_Mix 0 S W) =
           foldl (\<lambda>R t. RNDr R (snd (SHA256_Mix 0 S W)) (t mod 16) (16 * (t div 16))) S [0..<64]"
proof -
  define w16 where "w16 = take 16 W"
  have l16: "length w16 = 16" using assms by (simp add: w16_def)
  define W1 where "W1 = foldl (\<lambda>W j. MSCH W j 0) W [0..<16]"
  define W2 where "W2 = foldl (\<lambda>W j. MSCH W j 16) W1 [0..<16]"
  define W3 where "W3 = foldl (\<lambda>W j. MSCH W j 32) W2 [0..<16]"
  let ?ws = "schedule_ext 48 w16"
  have W0: "take (16 + 0) W = schedule_ext 0 w16" by (simp add: w16_def)
  from MSCH_steps [OF assms W0 l16, of 16]
  have W1: "length W1 = 64" "take (16 + 16) W1 = schedule_ext 16 w16"
    by (simp_all add: W1_def)
  from MSCH_steps [OF W1 l16, of 16]
  have W2: "length W2 = 64" "take (16 + 32) W2 = schedule_ext 32 w16"
    by (simp_all add: W2_def)
  from MSCH_steps [OF W2 l16, of 16]
  have W3: "length W3 = 64" "take (16 + 48) W3 = schedule_ext 48 w16"
    by (simp_all add: W3_def)
  have W3': "W3 = ?ws" using W3 by simp
  have mix: "SHA256_Mix 0 S W =
     (foldl (\<lambda>S j. RNDr S ?ws j 48) (foldl (\<lambda>S j. RNDr S ?ws j 32)
        (foldl (\<lambda>S j. RNDr S ?ws j 16) (foldl (\<lambda>S j. RNDr S ?ws j 0) S [0..<16]) [0..<16])
          [0..<16]) [0..<16], ?ws)"
  proof -
    have g0: "foldl (\<lambda>S j. RNDr S W j 0) S [0..<16] = foldl (\<lambda>S j. RNDr S ?ws j 0) S [0..<16]" for S
      by (rule group_final_W [OF W0 l16]) simp
    have g1: "foldl (\<lambda>S j. RNDr S W1 j 16) S [0..<16] = foldl (\<lambda>S j. RNDr S ?ws j 16) S [0..<16]" for S
      by (rule group_final_W [OF W1(2) l16]) simp
    have g2: "foldl (\<lambda>S j. RNDr S W2 j 32) S [0..<16] = foldl (\<lambda>S j. RNDr S ?ws j 32) S [0..<16]" for S
      by (rule group_final_W [OF W2(2) l16]) simp
    show ?thesis
      unfolding SHA256_Mix_unfold Let_def
      unfolding W1_def [symmetric] W2_def [symmetric] W3_def [symmetric]
      unfolding g0 g1 g2 W3' ..
  qed
  have i0: "foldl (\<lambda>v j. RNDr v ?ws ((j + 0) mod 16) (16 * ((j + 0) div 16))) v [0..<16]
            = foldl (\<lambda>R j. RNDr R ?ws j 0) v [0..<16]" for v
    by (rule group_index [of 0 0]) simp
  have i1: "foldl (\<lambda>v j. RNDr v ?ws ((j + 16) mod 16) (16 * ((j + 16) div 16))) v [0..<16]
            = foldl (\<lambda>R j. RNDr R ?ws j 16) v [0..<16]" for v
    by (rule group_index [of 16 1]) simp
  have i2: "foldl (\<lambda>v j. RNDr v ?ws ((j + 32) mod 16) (16 * ((j + 32) div 16))) v [0..<16]
            = foldl (\<lambda>R j. RNDr R ?ws j 32) v [0..<16]" for v
    by (rule group_index [of 32 2]) simp
  have i3: "foldl (\<lambda>v j. RNDr v ?ws ((j + 48) mod 16) (16 * ((j + 48) div 16))) v [0..<16]
            = foldl (\<lambda>R j. RNDr R ?ws j 48) v [0..<16]" for v
    by (rule group_index [of 48 3]) simp
  show ?thesis
    unfolding mix fst_conv snd_conv
    unfolding foldl_64_groups [of "\<lambda>R t. RNDr R ?ws (t mod 16) (16 * (t div 16))"]
    unfolding i0 i1 i2 i3 ..
qed

section \<open>Three digests\<close>

lemma upt_0_16: "[0..<16] = [0, 1, 2, 3, 4, 5, 6, 7, 8, 9, 10, 11, 12, 13, 14, 15]"
  by (simp add: eval_nat_numeral)

lemmas sha_eval =
  compress_spec_def schedule_spec_run decode_block_def upt_0_16 be32dec_B8 numeral_B8
  sched_run_numeral sched_run_Suc sched_run_0 rounds_spec_def Krnd_def initial_state_def
  vars_of_def numeral_W32 W32_round round_fin_def rotn_def shrn_def W32_add

lemma be64enc_0: "be64enc 0 = [0, 0, 0, 0, 0, 0, 0, 0]"
  by (simp add: be64enc_def)

lemma be64enc_24: "be64enc 24 = [0, 0, 0, 0, 0, 0, 0, 24]"
  by (simp add: be64enc_def)

lemma be64enc_256: "be64enc 256 = [0, 0, 0, 0, 0, 0, 1, 0]"
  by (simp add: be64enc_def)

lemma padded_empty:
  "blocks_of [] @
     pad_blocks (of_nat (8 * length ([] :: u8 list)))
       (rest_of []) =
    [[0x80, 0, 0, 0, 0, 0, 0, 0, 0, 0, 0, 0, 0, 0, 0, 0,
      0, 0, 0, 0, 0, 0, 0, 0, 0, 0, 0, 0, 0, 0, 0, 0,
      0, 0, 0, 0, 0, 0, 0, 0, 0, 0, 0, 0, 0, 0, 0, 0,
      0, 0, 0, 0, 0, 0, 0, 0, 0, 0, 0, 0, 0, 0, 0, 0]]"
  by (simp add: pad_blocks_def be64enc_0 be64enc_24 be64enc_256 eval_nat_numeral)

lemma compress_empty:
  "compress_spec initial_state
     [0x80, 0, 0, 0, 0, 0, 0, 0, 0, 0, 0, 0, 0, 0, 0, 0,
      0, 0, 0, 0, 0, 0, 0, 0, 0, 0, 0, 0, 0, 0, 0, 0,
      0, 0, 0, 0, 0, 0, 0, 0, 0, 0, 0, 0, 0, 0, 0, 0,
      0, 0, 0, 0, 0, 0, 0, 0, 0, 0, 0, 0, 0, 0, 0, 0] =
   [0xE3B0C442, 0x98FC1C14, 0x9AFBF4C8, 0x996FB924, 0x27AE41E4, 0x649B934C, 0xA495991B, 0x7852B855]"
  by (simp add: sha_eval)

lemma sha256_spec_empty:
  "sha256_spec [] =
     [0xE3, 0xB0, 0xC4, 0x42, 0x98, 0xFC, 0x1C, 0x14, 0x9A, 0xFB, 0xF4, 0xC8, 0x99, 0x6F, 0xB9, 0x24, 0x27, 0xAE, 0x41, 0xE4, 0x64, 0x9B, 0x93, 0x4C, 0xA4, 0x95, 0x99, 0x1B, 0x78, 0x52, 0xB8, 0x55]"
  unfolding sha256_spec_def padded_empty
  by (simp only: foldl.simps compress_empty) (simp add: numeral_W32 be32enc_W32 numeral_B8)

lemma padded_abc:
  "blocks_of [0x61, 0x62, 0x63] @
     pad_blocks (of_nat (8 * length ([0x61, 0x62, 0x63] :: u8 list)))
       (rest_of [0x61, 0x62, 0x63]) =
    [[0x61, 0x62, 0x63, 0x80, 0, 0, 0, 0, 0, 0, 0, 0, 0, 0, 0, 0,
      0, 0, 0, 0, 0, 0, 0, 0, 0, 0, 0, 0, 0, 0, 0, 0,
      0, 0, 0, 0, 0, 0, 0, 0, 0, 0, 0, 0, 0, 0, 0, 0,
      0, 0, 0, 0, 0, 0, 0, 0, 0, 0, 0, 0, 0, 0, 0, 0x18]]"
  by (simp add: pad_blocks_def be64enc_0 be64enc_24 be64enc_256 eval_nat_numeral)

lemma compress_abc:
  "compress_spec initial_state
     [0x61, 0x62, 0x63, 0x80, 0, 0, 0, 0, 0, 0, 0, 0, 0, 0, 0, 0,
      0, 0, 0, 0, 0, 0, 0, 0, 0, 0, 0, 0, 0, 0, 0, 0,
      0, 0, 0, 0, 0, 0, 0, 0, 0, 0, 0, 0, 0, 0, 0, 0,
      0, 0, 0, 0, 0, 0, 0, 0, 0, 0, 0, 0, 0, 0, 0, 0x18] =
   [0xBA7816BF, 0x8F01CFEA, 0x414140DE, 0x5DAE2223, 0xB00361A3, 0x96177A9C, 0xB410FF61, 0xF20015AD]"
  by (simp add: sha_eval)

lemma sha256_spec_abc:
  "sha256_spec [0x61, 0x62, 0x63] =
     [0xBA, 0x78, 0x16, 0xBF, 0x8F, 0x01, 0xCF, 0xEA, 0x41, 0x41, 0x40, 0xDE, 0x5D, 0xAE, 0x22, 0x23, 0xB0, 0x03, 0x61, 0xA3, 0x96, 0x17, 0x7A, 0x9C, 0xB4, 0x10, 0xFF, 0x61, 0xF2, 0x00, 0x15, 0xAD]"
  unfolding sha256_spec_def padded_abc
  by (simp only: foldl.simps compress_abc) (simp add: numeral_W32 be32enc_W32 numeral_B8)

lemma padded_twice:
  "blocks_of [0xE3, 0xB0, 0xC4, 0x42, 0x98, 0xFC, 0x1C, 0x14, 0x9A, 0xFB, 0xF4, 0xC8, 0x99, 0x6F, 0xB9, 0x24, 0x27, 0xAE, 0x41, 0xE4, 0x64, 0x9B, 0x93, 0x4C, 0xA4, 0x95, 0x99, 0x1B, 0x78, 0x52, 0xB8, 0x55] @
     pad_blocks (of_nat (8 * length ([0xE3, 0xB0, 0xC4, 0x42, 0x98, 0xFC, 0x1C, 0x14, 0x9A, 0xFB, 0xF4, 0xC8, 0x99, 0x6F, 0xB9, 0x24, 0x27, 0xAE, 0x41, 0xE4, 0x64, 0x9B, 0x93, 0x4C, 0xA4, 0x95, 0x99, 0x1B, 0x78, 0x52, 0xB8, 0x55] :: u8 list)))
       (rest_of [0xE3, 0xB0, 0xC4, 0x42, 0x98, 0xFC, 0x1C, 0x14, 0x9A, 0xFB, 0xF4, 0xC8, 0x99, 0x6F, 0xB9, 0x24, 0x27, 0xAE, 0x41, 0xE4, 0x64, 0x9B, 0x93, 0x4C, 0xA4, 0x95, 0x99, 0x1B, 0x78, 0x52, 0xB8, 0x55]) =
    [[0xE3, 0xB0, 0xC4, 0x42, 0x98, 0xFC, 0x1C, 0x14, 0x9A, 0xFB, 0xF4, 0xC8, 0x99, 0x6F, 0xB9, 0x24,
      0x27, 0xAE, 0x41, 0xE4, 0x64, 0x9B, 0x93, 0x4C, 0xA4, 0x95, 0x99, 0x1B, 0x78, 0x52, 0xB8, 0x55,
      0x80, 0, 0, 0, 0, 0, 0, 0, 0, 0, 0, 0, 0, 0, 0, 0,
      0, 0, 0, 0, 0, 0, 0, 0, 0, 0, 0, 0, 0, 0, 0x01, 0]]"
  by (simp add: pad_blocks_def be64enc_0 be64enc_24 be64enc_256 eval_nat_numeral)

lemma compress_twice:
  "compress_spec initial_state
     [0xE3, 0xB0, 0xC4, 0x42, 0x98, 0xFC, 0x1C, 0x14, 0x9A, 0xFB, 0xF4, 0xC8, 0x99, 0x6F, 0xB9, 0x24,
      0x27, 0xAE, 0x41, 0xE4, 0x64, 0x9B, 0x93, 0x4C, 0xA4, 0x95, 0x99, 0x1B, 0x78, 0x52, 0xB8, 0x55,
      0x80, 0, 0, 0, 0, 0, 0, 0, 0, 0, 0, 0, 0, 0, 0, 0,
      0, 0, 0, 0, 0, 0, 0, 0, 0, 0, 0, 0, 0, 0, 0x01, 0] =
   [0x5DF6E0E2, 0x761359D3, 0x0A827505, 0x8E299FCC, 0x03815345, 0x45F55CF4, 0x3E41983F, 0x5D4C9456]"
  by (simp add: sha_eval)

lemma sha256_spec_twice:
  "sha256_spec [0xE3, 0xB0, 0xC4, 0x42, 0x98, 0xFC, 0x1C, 0x14, 0x9A, 0xFB, 0xF4, 0xC8, 0x99, 0x6F, 0xB9, 0x24, 0x27, 0xAE, 0x41, 0xE4, 0x64, 0x9B, 0x93, 0x4C, 0xA4, 0x95, 0x99, 0x1B, 0x78, 0x52, 0xB8, 0x55] =
     [0x5D, 0xF6, 0xE0, 0xE2, 0x76, 0x13, 0x59, 0xD3, 0x0A, 0x82, 0x75, 0x05, 0x8E, 0x29, 0x9F, 0xCC, 0x03, 0x81, 0x53, 0x45, 0x45, 0xF5, 0x5C, 0xF4, 0x3E, 0x41, 0x98, 0x3F, 0x5D, 0x4C, 0x94, 0x56]"
  unfolding sha256_spec_def padded_twice
  by (simp only: foldl.simps compress_twice) (simp add: numeral_W32 be32enc_W32 numeral_B8)

section \<open>Facts the claims share\<close>

lemma zero_ctx_ok: "ctx_ok zero_ctx"
  by (simp add: ctx_ok_def zero_ctx_def)

lemma zero_work_ok: "work_ok zero_work"
  by (simp add: work_ok_def zero_work_def)

lemma length_zero_digest: "length zero_digest = 32"
  by (simp add: zero_digest_def)

lemma trace_zero_work: "trace zero_work = []"
  by (simp add: zero_work_def)

lemma pad_trace_length:
  assumes "fed ctx M" "work_ok w"
  shows "length (trace (snd (SHA256_Pad ctx w))) =
           length (trace w) + (if length M mod 64 < 56 then 1 else 2)"
proof -
  have ok: "ctx_ok ctx" using assms(1) by (simp only: fed_def)
  show ?thesis
    unfolding SHA256_Pad_spec(4) [OF ok assms(2)] buffered_fed [OF assms(1)]
    using assms(1) by (simp add: pad_blocks_def fed_def)
qed

lemma fed_one_update:
  assumes "ctx_ok c" "work_ok w"
  shows "fed (fst (SHA256_Update (SHA256_Init c) M w)) M"
  using SHA256_Update_fed [OF SHA256_Init_fed [OF assms(1)] assms(2), of M] by simp

lemma schedule_ext_nth:
  assumes "length w16 = 16" "16 \<le> i" "i < 16 + n"
  shows "schedule_ext n w16 ! i =
           sigma1 (schedule_ext n w16 ! (i - 2)) + schedule_ext n w16 ! (i - 7)
           + sigma0 (schedule_ext n w16 ! (i - 15)) + schedule_ext n w16 ! (i - 16)"
proof -
  define m where "m = i - 16"
  have i: "i = 16 + m" and mn: "m < n" using assms(2,3) by (simp_all add: m_def)
  let ?ws = "schedule_ext n w16"
  let ?p = "schedule_ext m w16"
  have p: "take (16 + m) ?ws = ?p"
    using take_schedule_ext_le [of m n w16] mn assms(1) by simp
  have p': "take (16 + Suc m) ?ws = ?p @ [schedule_word ?p]"
    using take_schedule_ext_le [of "Suc m" n w16] mn assms(1)
    by (simp add: schedule_ext_Suc_snoc del: schedule_ext.simps)
  have nth: "?p ! k = ?ws ! k" if "k < 16 + m" for k
    using that by (simp add: p [symmetric])
  have "?ws ! (16 + m) = take (16 + Suc m) ?ws ! (16 + m)" by simp
  also have "\<dots> = schedule_word ?p"
    unfolding p' using assms(1) by (simp add: nth_append)
  also have "\<dots> = sigma1 (?ws ! (16 + m - 2)) + ?ws ! (16 + m - 7)
           + sigma0 (?ws ! (16 + m - 15)) + ?ws ! (16 + m - 16)"
    using assms(1) by (simp add: schedule_word_def Let_def nth)
  finally show ?thesis unfolding i .
qed

lemma buffered_div: "buffered ctx = unat (count ctx) div 8 mod 64"
proof -
  have mask: "(0x3F :: u64) = mask 6" by (simp add: mask_eq_exp_minus_1)
  have "unat (drop_bit 3 (count ctx) AND mask 6) = take_bit 6 (drop_bit 3 (unat (count ctx)))"
    by (simp only: take_bit_eq_mask [symmetric] unsigned_take_bit_eq unat_drop_bit_eq)
  then show ?thesis
    unfolding buffered_def mask by (simp add: take_bit_eq_mod drop_bit_eq_div)
qed

lemma last_pad_blocks:
  assumes "length t < 64"
  shows "length (last (pad_blocks cnt t)) = 64 \<and> drop 56 (last (pad_blocks cnt t)) = be64enc cnt"
proof -
  have d: "drop 56 (A @ B) = B \<and> length (A @ B) = 56 + length B" if "length A = 56" for A B :: "u8 list"
    using that by simp
  show ?thesis
  proof (cases "length t < 56")
    case True
    define A where "A = t @ 0x80 # replicate (55 - length t) 0"
    have e: "last (pad_blocks cnt t) = A @ be64enc cnt"
      using True by (simp add: pad_blocks_def A_def)
    have "length A = 56" using True by (simp add: A_def)
    from d [OF this, of "be64enc cnt"] show ?thesis unfolding e by simp
  next
    case False
    have e: "last (pad_blocks cnt t) = replicate 56 0 @ be64enc cnt"
      using False by (simp add: pad_blocks_def)
    have "length (replicate 56 (0 :: u8)) = 56" by simp
    from d [OF this, of "be64enc cnt"] show ?thesis unfolding e by simp
  qed
qed

lemma ones_ctx_ok: "ctx_ok ones_ctx"
  by (simp add: ctx_ok_def ones_ctx_def)

lemma ones_work_ok: "work_ok ones_work"
  by (simp add: work_ok_def ones_work_def)

lemma length_ones_digest: "length ones_digest = 32"
  by (simp add: ones_digest_def)

lemma abc_ctx_ok: "ctx_ok abc_ctx"
  by (simp add: ctx_ok_def abc_ctx_def)

lemma abc_ctx_fields:
  "state abc_ctx = initial_state" "count abc_ctx = 24"
  "take (buffered abc_ctx) (buf abc_ctx) = [0x61, 0x62, 0x63]"
proof -
  have b: "buffered abc_ctx = 3" by (simp add: buffered_def abc_ctx_def)
  show "state abc_ctx = initial_state" "count abc_ctx = 24" by (simp_all add: abc_ctx_def)
  show "take (buffered abc_ctx) (buf abc_ctx) = [0x61, 0x62, 0x63]"
    unfolding b by (simp add: abc_ctx_def numeral_3_eq_3)
qed

lemma digest_abc_unfolded:
  "concat (map be32enc (foldl compress_spec initial_state (pad_blocks 24 [0x61, 0x62, 0x63]))) =
     [0xBA, 0x78, 0x16, 0xBF, 0x8F, 0x01, 0xCF, 0xEA, 0x41, 0x41, 0x40, 0xDE, 0x5D, 0xAE, 0x22, 0x23,
      0xB0, 0x03, 0x61, 0xA3, 0x96, 0x17, 0x7A, 0x9C, 0xB4, 0x10, 0xFF, 0x61, 0xF2, 0x00, 0x15, 0xAD]"
proof -
  have "sha256_spec [0x61, 0x62, 0x63] =
      concat (map be32enc (foldl compress_spec initial_state (pad_blocks 24 [0x61, 0x62, 0x63])))"
    by (simp add: sha256_spec_def)
  then show ?thesis by (simp only: sha256_spec_abc)
qed

section \<open>The second pass of the double hash\<close>

text \<open>
  With \<open>d1\<close> the 32 bytes the first pass writes at \<open>digest\<close>, the second pass of
  \<open>SHA256d_Buf\<close> hashes the \<open>len(M)\<close> bytes that start at \<open>digest\<close>, as long as the
  caller's object holds that many, and reads out of bounds otherwise. These bytes are
  \<open>d1\<close> exactly when \<open>len(M) = 32\<close>; for \<open>len(M) = 32\<close> the result is the hash of the
  hash, for \<open>len(M) < 32\<close> the hash of the first \<open>len(M)\<close> bytes of \<open>d1\<close>, and on the
  empty input it differs from the hash of the hash. Whether it differs from the hash of
  the hash for every length other than 32 is a question about collisions of SHA-256,
  which these facts leave open.
\<close>

lemma SHA256d_Buf_second_pass:
  assumes "ctx_ok c" "work_ok w" "32 \<le> length dg"
  shows "(length M \<le> length dg \<longrightarrow>
            SHA256d_Buf c w M dg =
              Inr (SHA256_Buf c w (take (length M) (SHA256_Buf c w M dg)) dg) \<and>
            (take (length M) (SHA256_Buf c w M dg) = take 32 (SHA256_Buf c w M dg)
               \<longleftrightarrow> length M = 32)) \<and>
         (length M = 32 \<longrightarrow>
            SHA256d_Buf c w M dg = Inr (SHA256_Buf c w (take 32 (SHA256_Buf c w M dg)) dg)) \<and>
         (length M < 32 \<longrightarrow>
            SHA256d_Buf c w M dg =
              Inr (SHA256_Buf c w (take (length M) (take 32 (SHA256_Buf c w M dg))) dg)) \<and>
         (length dg < length M \<longrightarrow> SHA256d_Buf c w M dg = Inl OutOfBounds) \<and>
         SHA256d_Buf c w [] dg \<noteq> Inr (SHA256_Buf c w (take 32 (SHA256_Buf c w [] dg)) dg)"
proof -
  let ?X = "sha256_spec M @ drop 32 dg"
  have lX: "length ?X = length dg" using assms(3) by simp
  have eq: "take (length M) ?X = take 32 ?X \<longleftrightarrow> length M = 32" if "length M \<le> length dg"
  proof
    assume "take (length M) ?X = take 32 ?X"
    then have "length (take (length M) ?X) = length (take 32 ?X)" by (rule arg_cong)
    then have "min (length ?X) (length M) = min (length ?X) 32" by (simp only: length_take)
    then show "length M = 32" using that assms(3) unfolding lX by simp
  qed simp
  have d: "SHA256d_Buf c w N dg =
      (if length dg < length N then Inl OutOfBounds
       else Inr (sha256_spec (take (length N) (sha256_spec N @ drop 32 dg)) @ drop 32 dg))" for N
    using assms(3) by (simp add: SHA256d_Buf_spec [OF assms(1,2)])
  have main: "(length M \<le> length dg \<longrightarrow>
            SHA256d_Buf c w M dg =
              Inr (SHA256_Buf c w (take (length M) (SHA256_Buf c w M dg)) dg) \<and>
            (take (length M) (SHA256_Buf c w M dg) = take 32 (SHA256_Buf c w M dg)
               \<longleftrightarrow> length M = 32)) \<and>
         (length M = 32 \<longrightarrow>
            SHA256d_Buf c w M dg = Inr (SHA256_Buf c w (take 32 (SHA256_Buf c w M dg)) dg)) \<and>
         (length M < 32 \<longrightarrow>
            SHA256d_Buf c w M dg =
              Inr (SHA256_Buf c w (take (length M) (take 32 (SHA256_Buf c w M dg))) dg)) \<and>
         (length dg < length M \<longrightarrow> SHA256d_Buf c w M dg = Inl OutOfBounds)"
    unfolding SHA256_Buf_spec [OF assms(1,2)] d
    using eq assms(3) by (auto simp: min_def)
  have once: "SHA256d_Buf c w [] dg = Inr (sha256_spec [] @ drop 32 dg)"
    unfolding d by simp
  have twice: "SHA256_Buf c w (take 32 (SHA256_Buf c w [] dg)) dg =
                 sha256_spec (sha256_spec []) @ drop 32 dg"
    unfolding SHA256_Buf_spec [OF assms(1,2)] by simp
  have "SHA256d_Buf c w [] dg \<noteq> Inr (SHA256_Buf c w (take 32 (SHA256_Buf c w [] dg)) dg)"
    unfolding once twice sha256_spec_empty sha256_spec_twice by simp
  with main show ?thesis by blast
qed

lemma SHA256d_Buf_second_pass_runs:
  "SHA256d_Buf zero_ctx zero_work (replicate 32 0x61) zero_digest =
     Inr (SHA256_Buf zero_ctx zero_work
            (take 32 (SHA256_Buf zero_ctx zero_work (replicate 32 0x61) zero_digest)) zero_digest) \<and>
   SHA256d_Buf zero_ctx zero_work [0x61, 0x62, 0x63] zero_digest =
     Inr (SHA256_Buf zero_ctx zero_work
            (take 3 (take 32 (SHA256_Buf zero_ctx zero_work [0x61, 0x62, 0x63] zero_digest)))
            zero_digest) \<and>
   SHA256d_Buf zero_ctx zero_work (replicate 33 0x61) zero_digest = Inl OutOfBounds"
  using SHA256d_Buf_second_pass [OF zero_ctx_ok zero_work_ok, of zero_digest "replicate 32 0x61"]
    SHA256d_Buf_second_pass [OF zero_ctx_ok zero_work_ok, of zero_digest "[0x61, 0x62, 0x63]"]
    SHA256d_Buf_second_pass [OF zero_ctx_ok zero_work_ok, of zero_digest "replicate 33 0x61"]
  by (simp add: length_zero_digest numeral_3_eq_3)

section \<open>The claims\<close>

text \<open>
  Claim C1 (streaming equivalence). For every byte sequence and every way of cutting it
  into chunks, \<open>SHA256_Init\<close>, one \<open>_SHA256_Update\<close> per chunk in order and
  \<open>_SHA256_Final\<close> write the same 32-byte digest as \<open>SHA256_Buf\<close> on the whole
  sequence. The contexts, scratch arrays and digest buffers of the two runs need not agree
  on entry: they are any arrays of the declared sizes.
\<close>

theorem SHA256_streaming_equivalence:
  assumes "ctx_ok c" "work_ok w" "ctx_ok c'" "work_ok w'" "length dg = 32" "length dg' = 32"
  shows "SHA256_stream c w chunks dg = SHA256_Buf c' w' (concat chunks) dg' \<and>
         length (SHA256_stream c w chunks dg) = 32"
  using assms by (simp add: SHA256_stream_spec SHA256_Buf_spec)

theorem SHA256_streaming_equivalence_witness:
  "SHA256_stream ones_ctx zero_work [[0x61], [], [0x62, 0x63]] ones_digest =
     SHA256_Buf zero_ctx ones_work [0x61, 0x62, 0x63] zero_digest \<and>
   SHA256_stream ones_ctx zero_work [[0x61], [], [0x62, 0x63]] ones_digest =
     [0xBA, 0x78, 0x16, 0xBF, 0x8F, 0x01, 0xCF, 0xEA, 0x41, 0x41, 0x40, 0xDE, 0x5D, 0xAE, 0x22, 0x23,
      0xB0, 0x03, 0x61, 0xA3, 0x96, 0x17, 0x7A, 0x9C, 0xB4, 0x10, 0xFF, 0x61, 0xF2, 0x00, 0x15, 0xAD]"
proof -
  have c: "concat [[0x61], [], [0x62, 0x63 :: u8]] = [0x61, 0x62, 0x63]" by simp
  from SHA256_streaming_equivalence [OF ones_ctx_ok zero_work_ok zero_ctx_ok ones_work_ok
      length_ones_digest length_zero_digest, of "[[0x61], [], [0x62, 0x63]]"]
  have e: "SHA256_stream ones_ctx zero_work [[0x61], [], [0x62, 0x63]] ones_digest =
     SHA256_Buf zero_ctx ones_work [0x61, 0x62, 0x63] zero_digest"
    unfolding c by (rule conjunct1)
  have "SHA256_Buf zero_ctx ones_work [0x61, 0x62, 0x63] zero_digest =
     [0xBA, 0x78, 0x16, 0xBF, 0x8F, 0x01, 0xCF, 0xEA, 0x41, 0x41, 0x40, 0xDE, 0x5D, 0xAE, 0x22, 0x23,
      0xB0, 0x03, 0x61, 0xA3, 0x96, 0x17, 0x7A, 0x9C, 0xB4, 0x10, 0xFF, 0x61, 0xF2, 0x00, 0x15, 0xAD]"
    unfolding SHA256_Buf_spec [OF zero_ctx_ok ones_work_ok] sha256_spec_abc
    by (simp add: zero_digest_def)
  with e show ?thesis by simp
qed

text \<open>
  Claim C2 (known answers). \<open>SHA256_Buf\<close> on the empty input writes
  \<open>e3b0c442 98fc1c14 9afbf4c8 996fb924 27ae41e4 649b934c a495991b 7852b855\<close>, and on the
  three bytes \<open>abc\<close> it writes
  \<open>ba7816bf 8f01cfea 414140de 5dae2223 b00361a3 96177a9c b410ff61 f20015ad\<close>, whatever
  the local context and scratch array hold on entry.
\<close>

theorem SHA256_known_answers:
  assumes "ctx_ok c" "work_ok w" "length dg = 32"
  shows "SHA256_Buf c w [] dg =
           [0xE3, 0xB0, 0xC4, 0x42, 0x98, 0xFC, 0x1C, 0x14, 0x9A, 0xFB, 0xF4, 0xC8, 0x99, 0x6F, 0xB9, 0x24,
            0x27, 0xAE, 0x41, 0xE4, 0x64, 0x9B, 0x93, 0x4C, 0xA4, 0x95, 0x99, 0x1B, 0x78, 0x52, 0xB8, 0x55] \<and>
         SHA256_Buf c w [0x61, 0x62, 0x63] dg =
           [0xBA, 0x78, 0x16, 0xBF, 0x8F, 0x01, 0xCF, 0xEA, 0x41, 0x41, 0x40, 0xDE, 0x5D, 0xAE, 0x22, 0x23,
            0xB0, 0x03, 0x61, 0xA3, 0x96, 0x17, 0x7A, 0x9C, 0xB4, 0x10, 0xFF, 0x61, 0xF2, 0x00, 0x15, 0xAD]"
  using assms(3) unfolding SHA256_Buf_spec [OF assms(1,2)] sha256_spec_empty sha256_spec_abc
  by simp

theorem SHA256_known_answers_witness:
  "SHA256_Buf zero_ctx zero_work [] zero_digest =
           [0xE3, 0xB0, 0xC4, 0x42, 0x98, 0xFC, 0x1C, 0x14, 0x9A, 0xFB, 0xF4, 0xC8, 0x99, 0x6F, 0xB9, 0x24,
            0x27, 0xAE, 0x41, 0xE4, 0x64, 0x9B, 0x93, 0x4C, 0xA4, 0x95, 0x99, 0x1B, 0x78, 0x52, 0xB8, 0x55] \<and>
   SHA256_Buf zero_ctx zero_work [0x61, 0x62, 0x63] zero_digest =
           [0xBA, 0x78, 0x16, 0xBF, 0x8F, 0x01, 0xCF, 0xEA, 0x41, 0x41, 0x40, 0xDE, 0x5D, 0xAE, 0x22, 0x23,
            0xB0, 0x03, 0x61, 0xA3, 0x96, 0x17, 0x7A, 0x9C, 0xB4, 0x10, 0xFF, 0x61, 0xF2, 0x00, 0x15, 0xAD]"
  by (rule SHA256_known_answers [OF zero_ctx_ok zero_work_ok length_zero_digest])

text \<open>
  Claim C4 (padding), as amended. With \<open>r\<close> buffered bytes, \<open>SHA256_Pad\<close> appends
  \<open>0x80\<close> and zeros, stores the bit count big-endian in the last 8 bytes of the final
  block, and calls the compression function once when \<open>r < 56\<close> and twice when
  \<open>r \<ge> 56\<close>; after one update of a fresh context with a message \<open>M\<close>, \<open>r\<close> is
  \<open>len(M) mod 64\<close>. So a 55-byte message takes one compression, and messages of 56 and
  of 63 bytes take two. The claim as first stated puts 63-byte messages on the
  one-compression path; the counterexample below shows two compressions there.
\<close>

theorem SHA256_Pad_compressions:
  assumes "ctx_ok ctx" "work_ok w"
  shows "(buffered ctx < 56 \<longrightarrow>
            trace (snd (SHA256_Pad ctx w)) =
              trace w @ [take (buffered ctx) (buf ctx) @ 0x80 # replicate (55 - buffered ctx) 0
                           @ be64enc (count ctx)] \<and>
            state (fst (SHA256_Pad ctx w)) =
              compress_spec (state ctx)
                (take (buffered ctx) (buf ctx) @ 0x80 # replicate (55 - buffered ctx) 0
                   @ be64enc (count ctx))) \<and>
         (56 \<le> buffered ctx \<longrightarrow>
            trace (snd (SHA256_Pad ctx w)) =
              trace w @ [take (buffered ctx) (buf ctx) @ 0x80 # replicate (63 - buffered ctx) 0,
                         replicate 56 0 @ be64enc (count ctx)] \<and>
            state (fst (SHA256_Pad ctx w)) =
              compress_spec
                (compress_spec (state ctx)
                   (take (buffered ctx) (buf ctx) @ 0x80 # replicate (63 - buffered ctx) 0))
                (replicate 56 0 @ be64enc (count ctx))) \<and>
         (ctx = fst (SHA256_Update (SHA256_Init c0) M w0) \<and> ctx_ok c0 \<and> work_ok w0 \<longrightarrow>
            buffered ctx = length M mod 64)"
proof -
  have l: "min (length (buf ctx)) (buffered ctx) = buffered ctx"
    using assms(1) buffered_lt [of ctx] by (simp add: ctx_ok_def)
  show ?thesis
    unfolding SHA256_Pad_spec(1,4) [OF assms]
    by (auto simp: pad_blocks_def l dest!: fed_one_update buffered_fed)
qed

theorem SHA256_Pad_compressions_witness:
  "length (trace (snd (SHA256_Pad
      (fst (SHA256_Update (SHA256_Init zero_ctx) (replicate 55 0x61) zero_work)) zero_work))) = 1 \<and>
   length (trace (snd (SHA256_Pad
      (fst (SHA256_Update (SHA256_Init zero_ctx) (replicate 56 0x61) zero_work)) zero_work))) = 2 \<and>
   length (trace (snd (SHA256_Pad
      (fst (SHA256_Update (SHA256_Init zero_ctx) (replicate 63 0x61) zero_work)) zero_work))) = 2"
proof -
  let ?c = "\<lambda>n. fst (SHA256_Update (SHA256_Init zero_ctx) (replicate n (0x61 :: u8)) zero_work)"
  have ok: "ctx_ok (?c n)" for n
    using fed_one_update [OF zero_ctx_ok zero_work_ok, of "replicate n 0x61"] by (simp only: fed_def)
  have b: "buffered (?c n) = n mod 64" for n
    using SHA256_Pad_compressions [OF ok zero_work_ok, of n zero_ctx "replicate n 0x61" zero_work]
    by (simp add: zero_ctx_ok zero_work_ok)
  show ?thesis
    using SHA256_Pad_compressions [OF ok zero_work_ok, of 55 zero_ctx "replicate 55 0x61" zero_work]
      SHA256_Pad_compressions [OF ok zero_work_ok, of 56 zero_ctx "replicate 56 0x61" zero_work]
      SHA256_Pad_compressions [OF ok zero_work_ok, of 63 zero_ctx "replicate 63 0x61" zero_work]
    by (simp add: b trace_zero_work)
qed

theorem SHA256_Pad_63_bytes_counterexample:
  "length (trace (snd (SHA256_Pad
      (fst (SHA256_Update (SHA256_Init zero_ctx) (replicate 63 0x61) zero_work)) zero_work))) \<noteq> 1"
  using pad_trace_length [OF fed_one_update [OF zero_ctx_ok zero_work_ok] zero_work_ok,
      of "replicate 63 0x61"]
  by (simp add: trace_zero_work)

text \<open>
  Claim C5 (the round function refines the specification's). For every state of 8 words
  and block of 64 bytes, \<open>SHA256_Transform\<close>, with its \<open>Ch\<close> and \<open>Maj\<close>, its in-place
  \<open>RND\<close> and the rotating indices of \<open>RNDr\<close>, leaves in \<open>state\<close> what the
  specification's 64 rounds followed by the feed-forward addition give; the code's
  elementary functions equal the specification's.
\<close>

theorem SHA256_Transform_refines_spec:
  assumes "length st = 8" "length block = 64" "length W = 64" "length S = 8"
  shows "fst (SHA256_Transform st block W S) = compress_spec st block \<and>
         Ch x y z = Ch_spec x y z \<and> Maj x y z = Maj_spec x y z \<and>
         S0 x = Sigma0 x \<and> S1 x = Sigma1 x"
  using assms by (simp add: SHA256_Transform_spec Ch_eq Maj_eq S0_eq S1_eq)

theorem SHA256_Transform_refines_spec_witness:
  "fst (SHA256_Transform initial_state (replicate 64 0x61) (replicate 64 0) (replicate 8 0)) =
     compress_spec initial_state (replicate 64 0x61) \<and>
   Ch 1 2 3 = Ch_spec 1 2 3 \<and> Maj 1 2 3 = Maj_spec 1 2 3 \<and>
   S0 1 = Sigma0 1 \<and> S1 1 = Sigma1 1"
  by (rule SHA256_Transform_refines_spec) simp_all

text \<open>
  Claim C6 (message schedule). \<open>be32dec_vect\<close> with length argument 8 decodes all 16
  words of the block; the array \<open>W\<close> that \<open>SHA256_Transform\<close> leaves holds these 16
  words followed by \<open>w[i] = \<sigma>1(w[i-2]) + w[i-7] + \<sigma>0(w[i-15]) + w[i-16]\<close> for
  \<open>16 \<le> i < 64\<close>; and the mixing step, which extends \<open>W\<close> sixteen words at a time
  between the groups of rounds, has the result of 64 rounds that each read their word
  from this final array.
\<close>

theorem SHA256_Transform_schedule:
  assumes "length st = 8" "length block = 64" "length W = 64" "length S = 8"
  shows "let W' = fst (snd (SHA256_Transform st block W S)) in
           length W' = 64 \<and>
           be32dec_vect W block 8 =
             map (\<lambda>i. be32dec (take 4 (drop (4 * i) block))) [0..<16] @ drop 16 W \<and>
           take 16 W' = map (\<lambda>i. be32dec (take 4 (drop (4 * i) block))) [0..<16] \<and>
           (\<forall>i. 16 \<le> i \<and> i < 64 \<longrightarrow>
              W' ! i = sigma1 (W' ! (i - 2)) + W' ! (i - 7) + sigma0 (W' ! (i - 15)) + W' ! (i - 16)) \<and>
           SHA256_Mix 0 st (be32dec_vect W block 8) =
             (foldl (\<lambda>R t. RNDr R W' (t mod 16) (16 * (t div 16))) st [0..<64], W')"
proof -
  have W': "fst (snd (SHA256_Transform st block W S)) = schedule_spec block"
    using assms by (simp add: SHA256_Transform_spec)
  have dec: "be32dec_vect W block 8 = decode_block block @ drop 16 W"
    using assms(3) by (simp add: be32dec_vect_8)
  have l: "length (decode_block block @ drop 16 W) = 64" using assms(3) by simp
  have m2: "snd (SHA256_Mix 0 st (decode_block block @ drop 16 W)) = schedule_spec block"
    unfolding schedule_spec_def using assms(1,3)
    by (subst SHA256_Mix_spec [where ?w16.0 = "decode_block block"]) simp_all
  have mix: "SHA256_Mix 0 st (decode_block block @ drop 16 W) =
     (foldl (\<lambda>R t. RNDr R (schedule_spec block) (t mod 16) (16 * (t div 16))) st [0..<64],
      schedule_spec block)"
    using SHA256_Mix_rounds_final [OF l, of st] m2
    by (simp add: prod_eq_iff)
  have rec: "schedule_spec block ! i =
      sigma1 (schedule_spec block ! (i - 2)) + schedule_spec block ! (i - 7)
      + sigma0 (schedule_spec block ! (i - 15)) + schedule_spec block ! (i - 16)"
    if "16 \<le> i" "i < 64" for i
    unfolding schedule_spec_def using that by (intro schedule_ext_nth) simp_all
  have t16: "take 16 (schedule_spec block) = decode_block block"
    unfolding schedule_spec_def using take_schedule_ext [of "decode_block block" 48] by simp
  show ?thesis
    unfolding W' Let_def dec mix
    using rec by (simp add: t16 decode_block_def)
qed

theorem SHA256_Transform_schedule_witness:
  "length (fst (snd (SHA256_Transform initial_state (replicate 64 0x61) (replicate 64 0) (replicate 8 0)))) = 64 \<and>
   fst (snd (SHA256_Transform initial_state (replicate 64 0x61) (replicate 64 0) (replicate 8 0))) ! 16 =
     sigma1 (fst (snd (SHA256_Transform initial_state (replicate 64 0x61) (replicate 64 0) (replicate 8 0))) ! 14)
     + fst (snd (SHA256_Transform initial_state (replicate 64 0x61) (replicate 64 0) (replicate 8 0))) ! 9
     + sigma0 (fst (snd (SHA256_Transform initial_state (replicate 64 0x61) (replicate 64 0) (replicate 8 0))) ! 1)
     + fst (snd (SHA256_Transform initial_state (replicate 64 0x61) (replicate 64 0) (replicate 8 0))) ! 0"
proof -
  let ?W = "fst (snd (SHA256_Transform initial_state (replicate 64 0x61) (replicate 64 0) (replicate 8 0)))"
  have h: "length initial_state = 8" "length (replicate 64 (0x61 :: u8)) = 64"
    "length (replicate 64 (0 :: u32)) = 64" "length (replicate 8 (0 :: u32)) = 8" by simp_all
  note t = SHA256_Transform_schedule [OF h, unfolded Let_def]
  from t have l: "length ?W = 64" by (rule conjunct1)
  from t have "\<forall>i. 16 \<le> i \<and> i < 64 \<longrightarrow>
      ?W ! i = sigma1 (?W ! (i - 2)) + ?W ! (i - 7) + sigma0 (?W ! (i - 15)) + ?W ! (i - 16)"
    by (elim conjE)
  then have "16 \<le> (16::nat) \<and> (16::nat) < 64 \<longrightarrow>
      ?W ! 16 = sigma1 (?W ! (16 - 2)) + ?W ! (16 - 7) + sigma0 (?W ! (16 - 15)) + ?W ! (16 - 16)"
    by (rule spec)
  then have "?W ! 16 = sigma1 (?W ! 14) + ?W ! 9 + sigma0 (?W ! 1) + ?W ! 0" by simp
  with l show ?thesis by (rule conjI)
qed

text \<open>
  Claim C7 (context invariant). After \<open>SHA256_Init\<close> and any sequence of updates,
  \<open>count\<close> is 8 times the number of bytes fed, as a 64-bit integer (so exactly, below
  \<open>2^61\<close> bytes), and the first \<open>(count / 8) mod 64\<close> bytes of \<open>buf\<close>, fewer than 64,
  are the bytes of the input past its last complete 64-byte block.
\<close>

theorem SHA256_context_invariant:
  assumes "ctx_ok c" "work_ok w"
  shows "let ctx = fst (SHA256_Updates (SHA256_Init c) chunks w); M = concat chunks in
           count ctx = of_nat (8 * length M) \<and>
           (length M < 2 ^ 61 \<longrightarrow> unat (count ctx) = 8 * length M) \<and>
           buffered ctx = unat (count ctx) div 8 mod 64 \<and>
           buffered ctx = length M mod 64 \<and>
           buffered ctx < 64 \<and>
           length (buf ctx) = 64 \<and>
           take (buffered ctx) (buf ctx) = drop (length M - length M mod 64) M"
proof -
  define ctx where "ctx = fst (SHA256_Updates (SHA256_Init c) chunks w)"
  define M where "M = concat chunks"
  have f: "fed ctx M"
    using SHA256_Updates_fed [OF SHA256_Init_fed [OF assms(1)] assms(2), of chunks]
    by (simp add: ctx_def M_def)
  have cnt: "count ctx = of_nat (8 * length M)" using f by (simp only: fed_def)
  have b: "buffered ctx = length M mod 64" using f by (rule buffered_fed)
  have t: "take (length M mod 64) (buf ctx) = rest_of M" using f by (simp only: fed_def)
  have l: "length (buf ctx) = 64" using f by (simp add: fed_def ctx_ok_def)
  have u: "unat (count ctx) = 8 * length M" if "length M < 2 ^ 61"
  proof -
    have "8 * length M < 2 ^ 64" using that by simp
    then show ?thesis unfolding cnt unat_of_nat by simp
  qed
  have "count ctx = of_nat (8 * length M) \<and>
           (length M < 2 ^ 61 \<longrightarrow> unat (count ctx) = 8 * length M) \<and>
           buffered ctx = unat (count ctx) div 8 mod 64 \<and>
           buffered ctx = length M mod 64 \<and>
           buffered ctx < 64 \<and>
           length (buf ctx) = 64 \<and>
           take (buffered ctx) (buf ctx) = drop (length M - length M mod 64) M"
    using cnt u buffered_div [of ctx] b buffered_lt [of ctx] l t
    unfolding rest_of_def b by blast
  then show ?thesis unfolding Let_def ctx_def M_def .
qed

theorem SHA256_context_invariant_witness:
  "unat (count (fst (SHA256_Updates (SHA256_Init zero_ctx) [[0x61, 0x62], [0x63]] zero_work))) = 24 \<and>
   buffered (fst (SHA256_Updates (SHA256_Init zero_ctx) [[0x61, 0x62], [0x63]] zero_work)) = 3 \<and>
   take 3 (buf (fst (SHA256_Updates (SHA256_Init zero_ctx) [[0x61, 0x62], [0x63]] zero_work))) =
     [0x61, 0x62, 0x63]"
proof -
  let ?ctx = "fst (SHA256_Updates (SHA256_Init zero_ctx) [[0x61, 0x62], [0x63]] zero_work)"
  note t = SHA256_context_invariant [OF zero_ctx_ok zero_work_ok, of "[[0x61, 0x62], [0x63]]",
      unfolded Let_def]
  have len: "length (concat [[0x61, 0x62], [0x63 :: u8]]) = 3" by simp
  from t have a: "length (concat [[0x61, 0x62], [0x63 :: u8]]) < 2 ^ 61 \<longrightarrow>
      unat (count ?ctx) = 8 * length (concat [[0x61, 0x62], [0x63 :: u8]])"
    and b: "buffered ?ctx = length (concat [[0x61, 0x62], [0x63 :: u8]]) mod 64"
    and c: "take (buffered ?ctx) (buf ?ctx) =
      drop (length (concat [[0x61, 0x62], [0x63 :: u8]])
            - length (concat [[0x61, 0x62], [0x63 :: u8]]) mod 64) (concat [[0x61, 0x62], [0x63]])"
    by blast+
  from a have a': "unat (count ?ctx) = 24" unfolding len by simp
  from b have b': "buffered ?ctx = 3" unfolding len by simp
  from c have c': "take 3 (buf ?ctx) = [0x61, 0x62, 0x63]" unfolding b' len by simp
  from a' b' c' show ?thesis by blast
qed

text \<open>
  Claim C8 (an empty update does nothing). \<open>_SHA256_Update\<close> with length 0 returns the
  context, the scratch array and the record of compressed blocks as they were.
\<close>

theorem SHA256_Update_empty_noop: "SHA256_Update ctx [] w = (ctx, w)"
  by (simp add: SHA256_Update_def)

text \<open>
  Claim C9 (\<open>SHA256_Pad\<close> and \<open>_SHA256_Final\<close> leave \<open>count\<close> alone). The count
  after either is the count before; the last 8 bytes of the last block compressed are the
  big-endian count on entry; and the digest written is the encoding of the state reached
  from the entry state through the padding blocks built from the entry count and the
  buffered bytes, a function of the context on entry only (the digest buffer holding at
  least the 32 bytes written).
\<close>

theorem SHA256_Pad_keeps_count:
  "count (fst (SHA256_Pad ctx w)) = count ctx \<and>
   count (fst (snd (SHA256_Final dg ctx w))) = count ctx \<and>
   (ctx_ok ctx \<and> work_ok w \<longrightarrow>
      length (last (trace (snd (SHA256_Pad ctx w)))) = 64 \<and>
      drop 56 (last (trace (snd (SHA256_Pad ctx w)))) = be64enc (count ctx) \<and>
      (32 \<le> length dg \<longrightarrow>
         fst (SHA256_Final dg ctx w) =
           concat (map be32enc
             (foldl compress_spec (state ctx)
                (pad_blocks (count ctx) (take (buffered ctx) (buf ctx))))) @ drop 32 dg))"
proof -
  have tc: "count (fst (Transform_call c b v)) = count c" for c b v
    by (simp add: Transform_call_def split: prod.splits)
  have p: "count (fst (SHA256_Pad ctx w)) = count ctx"
    by (simp add: SHA256_Pad_def Let_def tc case_prod_beta)
  have f: "count (fst (snd (SHA256_Final dg ctx w))) = count ctx"
    by (simp add: SHA256_Final_def case_prod_beta p)
  have r: "length (last (trace (snd (SHA256_Pad ctx w)))) = 64 \<and>
      drop 56 (last (trace (snd (SHA256_Pad ctx w)))) = be64enc (count ctx) \<and>
      fst (SHA256_Final dg ctx w) =
        concat (map be32enc
          (foldl compress_spec (state ctx)
             (pad_blocks (count ctx) (take (buffered ctx) (buf ctx))))) @ drop 32 dg"
    if ok: "ctx_ok ctx" "work_ok w"
  proof -
    have l: "min (length (buf ctx)) (buffered ctx) = buffered ctx"
      using ok(1) buffered_lt [of ctx] by (simp add: ctx_ok_def)
    have st: "length (state (fst (SHA256_Pad ctx w))) = 8"
      using SHA256_Pad_ok [OF ok] by (simp add: ctx_ok_def)
    have lt: "length (take (buffered ctx) (buf ctx)) < 64"
      using buffered_lt [of ctx] by (simp add: l)
    have fin: "fst (SHA256_Final dg ctx w) =
        concat (map be32enc
          (foldl compress_spec (state ctx)
             (pad_blocks (count ctx) (take (buffered ctx) (buf ctx))))) @ drop 32 dg"
      using st by (simp add: SHA256_Final_def case_prod_beta be32enc_vect_4 SHA256_Pad_spec(1) [OF ok])
    show ?thesis
      unfolding SHA256_Pad_spec(4) [OF ok]
      using last_pad_blocks [OF lt, of "count ctx"] fin by simp
  qed
  from p f r show ?thesis by blast
qed

theorem SHA256_Pad_keeps_count_witness:
  "count abc_ctx = 24 \<and>
   count (fst (SHA256_Pad abc_ctx ones_work)) = 24 \<and>
   count (fst (snd (SHA256_Final ones_digest abc_ctx ones_work))) = 24 \<and>
   length (last (trace (snd (SHA256_Pad abc_ctx ones_work)))) = 64 \<and>
   drop 56 (buf abc_ctx) = [0xFF, 0xFF, 0xFF, 0xFF, 0xFF, 0xFF, 0xFF, 0xFF] \<and>
   drop 56 (last (trace (snd (SHA256_Pad abc_ctx ones_work)))) = [0, 0, 0, 0, 0, 0, 0, 24] \<and>
   fst (SHA256_Final ones_digest abc_ctx ones_work) =
     [0xBA, 0x78, 0x16, 0xBF, 0x8F, 0x01, 0xCF, 0xEA, 0x41, 0x41, 0x40, 0xDE, 0x5D, 0xAE, 0x22, 0x23,
      0xB0, 0x03, 0x61, 0xA3, 0x96, 0x17, 0x7A, 0x9C, 0xB4, 0x10, 0xFF, 0x61, 0xF2, 0x00, 0x15, 0xAD]"
proof -
  note t = SHA256_Pad_keeps_count [of abc_ctx ones_work ones_digest]
  have le: "32 \<le> length ones_digest" by (simp add: ones_digest_def)
  from t have c1: "count (fst (SHA256_Pad abc_ctx ones_work)) = count abc_ctx"
    and c2: "count (fst (snd (SHA256_Final ones_digest abc_ctx ones_work))) = count abc_ctx"
    by blast+
  from t abc_ctx_ok ones_work_ok
  have l: "length (last (trace (snd (SHA256_Pad abc_ctx ones_work)))) = 64"
    and d: "drop 56 (last (trace (snd (SHA256_Pad abc_ctx ones_work)))) = be64enc (count abc_ctx)"
    by blast+
  from t abc_ctx_ok ones_work_ok le
  have f: "fst (SHA256_Final ones_digest abc_ctx ones_work) =
           concat (map be32enc
             (foldl compress_spec (state abc_ctx)
                (pad_blocks (count abc_ctx) (take (buffered abc_ctx) (buf abc_ctx))))) @ drop 32 ones_digest"
    by blast
  have b: "drop 56 (buf abc_ctx) = [0xFF, 0xFF, 0xFF, 0xFF, 0xFF, 0xFF, 0xFF, 0xFF]"
    by (simp add: abc_ctx_def eval_nat_numeral)
  have f': "fst (SHA256_Final ones_digest abc_ctx ones_work) =
     [0xBA, 0x78, 0x16, 0xBF, 0x8F, 0x01, 0xCF, 0xEA, 0x41, 0x41, 0x40, 0xDE, 0x5D, 0xAE, 0x22, 0x23,
      0xB0, 0x03, 0x61, 0xA3, 0x96, 0x17, 0x7A, 0x9C, 0xB4, 0x10, 0xFF, 0x61, 0xF2, 0x00, 0x15, 0xAD]"
    unfolding f abc_ctx_fields digest_abc_unfolded by (simp add: ones_digest_def)
  from c1 c2 l d b f' show ?thesis
    unfolding abc_ctx_fields(2) be64enc_24 by blast
qed

text \<open>
  Claim C10 (\<open>SHA256d_Buf\<close> on the empty input). The result is the digest of the empty
  string, that of \<open>SHA256_Buf\<close> on the empty input and not the hash of that digest; no
  read is out of bounds.
\<close>

theorem SHA256d_Buf_empty:
  assumes "ctx_ok c" "work_ok w" "length dg = 32"
  shows "SHA256d_Buf c w [] dg = Inr (SHA256_Buf c w [] dg) \<and>
         SHA256d_Buf c w [] dg =
           Inr [0xE3, 0xB0, 0xC4, 0x42, 0x98, 0xFC, 0x1C, 0x14, 0x9A, 0xFB, 0xF4, 0xC8, 0x99, 0x6F, 0xB9, 0x24,
                0x27, 0xAE, 0x41, 0xE4, 0x64, 0x9B, 0x93, 0x4C, 0xA4, 0x95, 0x99, 0x1B, 0x78, 0x52, 0xB8, 0x55] \<and>
         SHA256d_Buf c w [] dg \<noteq> Inr (SHA256_Buf c w (SHA256_Buf c w [] dg) dg) \<and>
         SHA256d_Buf c w [] dg \<noteq> Inl OutOfBounds"
proof -
  have d: "SHA256d_Buf c w [] dg = Inr (sha256_spec [])"
    using assms(3) by (simp add: SHA256d_Buf_spec [OF assms(1,2)])
  have b: "SHA256_Buf c w M dg = sha256_spec M" for M
    using assms(3) by (simp add: SHA256_Buf_spec [OF assms(1,2)])
  show ?thesis
    unfolding d b sha256_spec_empty sha256_spec_twice by simp
qed

theorem SHA256d_Buf_empty_witness:
  "SHA256d_Buf zero_ctx zero_work [] zero_digest = Inr (SHA256_Buf zero_ctx zero_work [] zero_digest) \<and>
   SHA256d_Buf zero_ctx zero_work [] zero_digest \<noteq>
     Inr (SHA256_Buf zero_ctx zero_work (SHA256_Buf zero_ctx zero_work [] zero_digest) zero_digest)"
  using SHA256d_Buf_empty [OF zero_ctx_ok zero_work_ok length_zero_digest] by blast

end
